theory Spec2Isabelle
  imports Main
begin

section \<open>Values read from a JSON document\<close>

text \<open>
  \<^verbatim>\<open>json.load\<close> returns \<^verbatim>\<open>None\<close>, \<^verbatim>\<open>bool\<close>, \<^verbatim>\<open>int\<close>, \<^verbatim>\<open>float\<close>, \<^verbatim>\<open>str\<close>,
  \<^verbatim>\<open>list\<close> and \<^verbatim>\<open>dict\<close> values. A dict keeps insertion order and has string keys,
  each key once: it is an association list, and \<open>keys_ok\<close> below says that the keys of
  every dict are distinct. A float is carried as mantissa and exponent; no function of
  the program looks inside a scalar.
\<close>

datatype json =
    JNull
  | JBool bool
  | JInt int
  | JFloat int int
  | JStr string
  | JList "json list"
  | JDict "(string \<times> json) list"

datatype error =
    AttributeError
  | IndexError
  | KeyError
  | TypeError
  | ValueError
  | IOError
  | ReError
  | Unmodelled

fun is_list :: "json \<Rightarrow> bool" where
  "is_list (JList xs) = True"
| "is_list _ = False"

fun is_dict :: "json \<Rightarrow> bool" where
  "is_dict (JDict kvs) = True"
| "is_dict _ = False"

subsection \<open>Ordered dictionaries\<close>

text \<open>
  \<^verbatim>\<open>d[k] = v\<close> on a \<^verbatim>\<open>dict\<close> or \<^verbatim>\<open>OrderedDict\<close>: an existing key keeps its place
  and takes the new value, a new key goes to the end.
\<close>

fun dict_set :: "('k \<times> 'v) list \<Rightarrow> 'k \<Rightarrow> 'v \<Rightarrow> ('k \<times> 'v) list" where
  "dict_set [] k v = [(k, v)]"
| "dict_set ((k', v') # d) k v =
     (if k' = k then (k', v) # d else (k', v') # dict_set d k v)"

text \<open>\<^verbatim>\<open>dict(pairs)\<close> and \<^verbatim>\<open>OrderedDict(pairs)\<close>: the pairs are stored one after the other.\<close>

definition py_dict :: "('k \<times> 'v) list \<Rightarrow> ('k \<times> 'v) list" where
  "py_dict ps = foldl (\<lambda>d (k, v). dict_set d k v) [] ps"

text \<open>\<^verbatim>\<open>d.get(k)\<close>, with \<open>None\<close> for a missing key.\<close>

definition dict_get :: "('k \<times> 'v) list \<Rightarrow> 'k \<Rightarrow> 'v option" where
  "dict_get d k = map_of d k"

subsection \<open>\<^verbatim>\<open>str\<close> of a list index\<close>

definition digit_chars :: string where
  "digit_chars = ''0123456789''"

function str_nat :: "nat \<Rightarrow> string" where
  "str_nat n =
     (if n < 10 then [digit_chars ! n]
      else str_nat (n div 10) @ [digit_chars ! (n mod 10)])"
  by pat_completeness auto
termination
  by (relation "measure id") auto

declare str_nat.simps [simp del]

lemma dict_set_fresh: "k \<notin> fst ` set d \<Longrightarrow> dict_set d k v = d @ [(k, v)]"
  by (induction d) auto

lemma foldl_dict_set_distinct:
  "distinct (map fst (d @ ps)) \<Longrightarrow> foldl (\<lambda>d (k, v). dict_set d k v) d ps = d @ ps"
proof (induction ps arbitrary: d)
  case Nil
  then show ?case by simp
next
  case (Cons p ps)
  obtain k v where p: "p = (k, v)" by (cases p)
  from Cons.prems have fresh: "k \<notin> fst ` set d" by (auto simp: p)
  from Cons.prems have "distinct (map fst ((d @ [(k, v)]) @ ps))" by (simp add: p)
  from Cons.IH[OF this] show ?case by (simp add: p dict_set_fresh[OF fresh])
qed

lemma py_dict_distinct: "distinct (map fst ps) \<Longrightarrow> py_dict ps = ps"
  using foldl_dict_set_distinct[of "[]" ps] by (simp add: py_dict_def)

lemma distinct_digit_chars: "distinct digit_chars"
  by (simp add: digit_chars_def)

lemma length_digit_chars: "length digit_chars = 10"
  by (simp add: digit_chars_def)

lemma digit_inj: "a < 10 \<Longrightarrow> b < 10 \<Longrightarrow> digit_chars ! a = digit_chars ! b \<Longrightarrow> a = b"
  using distinct_digit_chars length_digit_chars by (simp add: nth_eq_iff_index_eq)

lemma str_nat_nonempty: "str_nat n \<noteq> []"
  by (subst str_nat.simps) simp

lemma str_nat_inj: "str_nat n = str_nat m \<Longrightarrow> n = m"
proof (induction n arbitrary: m rule: str_nat.induct)
  case (1 n)
  show ?case
  proof (cases "n < 10")
    case n: True
    show ?thesis
    proof (cases "m < 10")
      case True
      with n "1.prems" show ?thesis
        by (simp add: str_nat.simps[of n] str_nat.simps[of m] digit_inj)
    next
      case False
      with n "1.prems" str_nat_nonempty[of "m div 10"] show ?thesis
        by (simp add: str_nat.simps[of n] str_nat.simps[of m])
    qed
  next
    case n: False
    show ?thesis
    proof (cases "m < 10")
      case True
      with n "1.prems" str_nat_nonempty[of "n div 10"] show ?thesis
        by (simp add: str_nat.simps[of n] str_nat.simps[of m])
    next
      case False
      with n "1.prems" have e: "str_nat (n div 10) = str_nat (m div 10)"
        and d: "digit_chars ! (n mod 10) = digit_chars ! (m mod 10)"
        by (simp_all add: str_nat.simps[of n] str_nat.simps[of m])
      from "1.IH"[OF n e] have q: "n div 10 = m div 10" .
      from d have r: "n mod 10 = m mod 10" by (simp add: digit_inj)
      from q r show ?thesis by (metis div_mult_mod_eq)
    qed
  qed
qed

lemma distinct_str_nat_upt: "distinct (map str_nat [0..<n])"
  by (simp add: distinct_map inj_on_def str_nat_inj)

lemma py_dict_enumerate:
  "py_dict (zip (map str_nat [0..<length xs]) xs) = zip (map str_nat [0..<length xs]) xs"
proof (rule py_dict_distinct)
  have "map fst (zip (map str_nat [0..<length xs]) xs) = map str_nat [0..<length xs]"
    by (simp add: map_fst_zip)
  then show "distinct (map fst (zip (map str_nat [0..<length xs]) xs))"
    by (simp add: distinct_str_nat_upt)
qed

section \<open>\<^verbatim>\<open>Grant.to_flat\<close>\<close>

text \<open>
  \<^verbatim>\<open>
  def flatten(vals, prefix=''):
      new_vals = []
      if isinstance(vals, list):
          vals = dict(zip(map(str, range(len(vals))), vals))
      for v in vals:
          new_key = '{}.{}'.format(prefix, v) if prefix != '' else v
          if isinstance(vals[v], list):
              new_vals.extend(flatten(vals[v], new_key))
          elif isinstance(vals[v], dict):
              new_vals.extend(flatten(vals[v], new_key))
          else:
              new_vals.append((new_key, vals[v]))
      return new_vals
  \<close>
  \<open>flatten\<close> is the function, \<open>flatten_loop\<close> its \<^verbatim>\<open>for\<close> loop over the entries that are
  left. \<open>flatten\<close> is only ever called on a dict or a list (the attribute dict of the
  grant, then the values the two \<^verbatim>\<open>isinstance\<close> tests let through); the equations for
  scalars are there for totality.
\<close>

definition new_key :: "string \<Rightarrow> string \<Rightarrow> string" where
  "new_key prefix v = (if prefix \<noteq> '''' then prefix @ ''.'' @ v else v)"

definition loop_measure :: "(string \<times> json) list \<Rightarrow> nat" where
  "loop_measure kvs = sum_list (map (\<lambda>kv. Suc (size (snd kv))) kvs)"

lemma loop_measure_zip:
  "length ks = length xs \<Longrightarrow> loop_measure (zip ks xs) = size_list size xs"
  by (induction ks xs rule: list_induct2) (simp_all add: loop_measure_def)

lemma loop_measure_dict: "loop_measure kvs < Suc (size_list (size_prod (\<lambda>x. 0) size) kvs)"
  by (induction kvs) (auto simp: loop_measure_def)

function flatten :: "json \<Rightarrow> string \<Rightarrow> (string \<times> json) list"
  and flatten_loop :: "(string \<times> json) list \<Rightarrow> string \<Rightarrow> (string \<times> json) list" where
  "flatten (JList xs) prefix =
     flatten_loop (py_dict (zip (map str_nat [0..<length xs]) xs)) prefix"
| "flatten (JDict kvs) prefix = flatten_loop kvs prefix"
| "flatten JNull prefix = []"
| "flatten (JBool b) prefix = []"
| "flatten (JInt i) prefix = []"
| "flatten (JFloat m e) prefix = []"
| "flatten (JStr s) prefix = []"
| "flatten_loop [] prefix = []"
| "flatten_loop ((v, x) # rest) prefix =
     (if is_list x then flatten x (new_key prefix v)
      else if is_dict x then flatten x (new_key prefix v)
      else [(new_key prefix v, x)])
     @ flatten_loop rest prefix"
  by pat_completeness auto
termination
proof (relation "measure (\<lambda>a. case a of Inl (j, p) \<Rightarrow> size j | Inr (kvs, p) \<Rightarrow> loop_measure kvs)")
  show "wf (measure (\<lambda>a. case a of Inl (j, p) \<Rightarrow> size j | Inr (kvs, p) \<Rightarrow> loop_measure kvs))"
    by simp
next
  fix xs :: "json list" and prefix :: string
  show "(Inr (py_dict (zip (map str_nat [0..<length xs]) xs), prefix), Inl (JList xs, prefix))
      \<in> measure (\<lambda>a. case a of Inl (j, p) \<Rightarrow> size j | Inr (kvs, p) \<Rightarrow> loop_measure kvs)"
    by (simp add: py_dict_enumerate loop_measure_zip)
next
  fix kvs :: "(string \<times> json) list" and prefix :: string
  show "(Inr (kvs, prefix), Inl (JDict kvs, prefix))
      \<in> measure (\<lambda>a. case a of Inl (j, p) \<Rightarrow> size j | Inr (kvs, p) \<Rightarrow> loop_measure kvs)"
    using loop_measure_dict[of kvs] by simp
next
  fix v :: string and x :: json and rest :: "(string \<times> json) list" and prefix :: string
  show "(Inl (x, new_key prefix v), Inr ((v, x) # rest, prefix))
      \<in> measure (\<lambda>a. case a of Inl (j, p) \<Rightarrow> size j | Inr (kvs, p) \<Rightarrow> loop_measure kvs)"
    by (simp add: loop_measure_def)
next
  fix v :: string and x :: json and rest :: "(string \<times> json) list" and prefix :: string
  show "(Inl (x, new_key prefix v), Inr ((v, x) # rest, prefix))
      \<in> measure (\<lambda>a. case a of Inl (j, p) \<Rightarrow> size j | Inr (kvs, p) \<Rightarrow> loop_measure kvs)"
    by (simp add: loop_measure_def)
next
  fix v :: string and x :: json and rest :: "(string \<times> json) list" and prefix :: string
  show "(Inr (rest, prefix), Inr ((v, x) # rest, prefix))
      \<in> measure (\<lambda>a. case a of Inl (j, p) \<Rightarrow> size j | Inr (kvs, p) \<Rightarrow> loop_measure kvs)"
    by (simp add: loop_measure_def)
qed

text \<open>
  \<^verbatim>\<open>Grant(**g)\<close> stores the entries of \<open>g\<close> in the attribute dict of the object, and
  \<^verbatim>\<open>to_flat\<close> returns \<^verbatim>\<open>OrderedDict(flatten(self.__dict__))\<close>. A grant is the list of
  its attributes.
\<close>

type_synonym grant = "(string \<times> json) list"

definition to_flat :: "grant \<Rightarrow> (string \<times> json) list" where
  "to_flat g = py_dict (flatten (JDict g) '''')"

subsection \<open>The flattener as the specification words it\<close>

text \<open>
  Section 4.3 of the specification: a sequence is a mapping from the stringified index to
  the element; the flat key of a pair is \<open>prefix + "." + key\<close>, or just the key at the top
  level; a sequence or mapping is entered with the flat key as the new prefix; any other
  value is appended with its flat key. \<open>flatten_spec\<close> carries the level as a flag where
  the program tests whether the prefix is the empty string.
\<close>

definition flat_key_spec :: "bool \<Rightarrow> string \<Rightarrow> string \<Rightarrow> string" where
  "flat_key_spec toplevel prefix key = (if toplevel then key else prefix @ ''.'' @ key)"

fun entries_spec :: "json \<Rightarrow> (string \<times> json) list" where
  "entries_spec (JList xs) = zip (map str_nat [0..<length xs]) xs"
| "entries_spec (JDict kvs) = kvs"
| "entries_spec _ = []"

lemma loop_measure_entries_spec: "loop_measure (entries_spec v) \<le> size v"
proof (cases v)
  case (JList xs)
  then show ?thesis by (simp add: loop_measure_zip)
next
  case (JDict kvs)
  then show ?thesis using loop_measure_dict[of kvs] by simp
qed (simp_all add: loop_measure_def)

function flatten_spec :: "bool \<Rightarrow> string \<Rightarrow> (string \<times> json) list \<Rightarrow> (string \<times> json) list" where
  "flatten_spec toplevel prefix [] = []"
| "flatten_spec toplevel prefix ((k, v) # rest) =
     (if is_list v \<or> is_dict v
      then flatten_spec False (flat_key_spec toplevel prefix k) (entries_spec v)
      else [(flat_key_spec toplevel prefix k, v)])
     @ flatten_spec toplevel prefix rest"
  by pat_completeness auto
termination
proof (relation "measure (\<lambda>(toplevel, prefix, kvs). loop_measure kvs)")
  show "wf (measure (\<lambda>(toplevel, prefix, kvs). loop_measure kvs))" by simp
next
  fix toplevel :: bool and prefix k :: string and v :: json and rest :: "(string \<times> json) list"
  show "((False, flat_key_spec toplevel prefix k, entries_spec v), (toplevel, prefix, (k, v) # rest))
      \<in> measure (\<lambda>(toplevel, prefix, kvs). loop_measure kvs)"
    using loop_measure_entries_spec[of v] by (simp add: loop_measure_def)
next
  fix toplevel :: bool and prefix k :: string and v :: json and rest :: "(string \<times> json) list"
  show "((toplevel, prefix, rest), (toplevel, prefix, (k, v) # rest))
      \<in> measure (\<lambda>(toplevel, prefix, kvs). loop_measure kvs)"
    by (simp add: loop_measure_def)
qed

subsection \<open>Records whose keys name their path\<close>

text \<open>
  \<open>keys_ok\<close>: in every mapping of the value the keys are distinct (as in any Python
  dict), none is the empty string and none contains a dot.
\<close>

fun keys_ok :: "json \<Rightarrow> bool" where
  "keys_ok (JList xs) = list_all keys_ok xs"
| "keys_ok (JDict kvs) =
     (distinct (map fst kvs) \<and>
      list_all (\<lambda>kv. fst kv \<noteq> '''' \<and> CHR ''.'' \<notin> set (fst kv) \<and> keys_ok (snd kv)) kvs)"
| "keys_ok _ = True"

section \<open>\<^verbatim>\<open>ThreeSixtyGiving.to_flatfile\<close>\<close>

text \<open>
  \<^verbatim>\<open>
  def __iter__(self):
      for g in self.data.get(self.root_id, []):
          yield Grant(**g)
  \<close>
  \<open>py_iter\<close> is what a \<^verbatim>\<open>for\<close> loop reads from a JSON value (the elements of a list,
  the keys of a dict, the characters of a string; anything else raises), and
  \<open>make_grant\<close> is \<^verbatim>\<open>Grant(**g)\<close>: \<open>g\<close> must be a mapping, and a key \<^verbatim>\<open>self\<close> collides
  with the first parameter of \<^verbatim>\<open>__init__\<close>.
\<close>

definition root_id :: string where
  "root_id = ''grants''"

fun py_iter :: "json \<Rightarrow> error + json list" where
  "py_iter (JList xs) = Inr xs"
| "py_iter (JDict kvs) = Inr (map (\<lambda>kv. JStr (fst kv)) kvs)"
| "py_iter (JStr s) = Inr (map (\<lambda>c. JStr [c]) s)"
| "py_iter _ = Inl TypeError"

fun make_grant :: "json \<Rightarrow> error + grant" where
  "make_grant (JDict kvs) = (if ''self'' \<in> fst ` set kvs then Inl TypeError else Inr kvs)"
| "make_grant _ = Inl TypeError"

text \<open>\<^verbatim>\<open>self.data.get(self.root_id, [])\<close>: only a dict has \<^verbatim>\<open>get\<close>.\<close>

fun grants_of :: "json \<Rightarrow> error + json" where
  "grants_of (JDict kvs) =
     (case dict_get kvs root_id of None \<Rightarrow> Inr (JList []) | Some v \<Rightarrow> Inr v)"
| "grants_of _ = Inl AttributeError"

text \<open>
  \<^verbatim>\<open>
  for f in g_flat.keys():
      if f not in fieldnames:
          fieldnames.append(f)
  \<close>
\<close>

fun add_fieldnames :: "string list \<Rightarrow> string list \<Rightarrow> string list" where
  "add_fieldnames [] fieldnames = fieldnames"
| "add_fieldnames (f # fs) fieldnames =
     add_fieldnames fs (if f \<notin> set fieldnames then fieldnames @ [f] else fieldnames)"

text \<open>
  \<^verbatim>\<open>g.to_flat()\<close>: \<^verbatim>\<open>Grant.__init__\<close> stores the keys of the record as attributes of the
  instance (\<^verbatim>\<open>self.__dict__.update(kwargs)\<close>), and an attribute of the instance is found
  before a method of the class. For a record with a key \<^verbatim>\<open>to_flat\<close> the lookup gives the
  value of that key, a JSON value, and calling it raises \<^verbatim>\<open>TypeError\<close>.
\<close>

definition call_to_flat :: "grant \<Rightarrow> error + (string \<times> json) list" where
  "call_to_flat g = (if ''to_flat'' \<in> fst ` set g then Inl TypeError else Inr (to_flat g))"

text \<open>
  \<^verbatim>\<open>
  data = []
  fieldnames = []
  for g in self:
      g_flat = g.to_flat()
      data.append(g_flat)
      for f in g_flat.keys(): ...
  return (data, fieldnames)
  \<close>
  The iterator is a generator: the grant of a record is made just before the body of
  the loop runs on it.
\<close>

fun to_flatfile_loop ::
  "json list \<Rightarrow> (string \<times> json) list list \<Rightarrow> string list
     \<Rightarrow> error + ((string \<times> json) list list \<times> string list)" where
  "to_flatfile_loop [] data fieldnames = Inr (data, fieldnames)"
| "to_flatfile_loop (g # gs) data fieldnames =
     (case make_grant g of
        Inl e \<Rightarrow> Inl e
      | Inr gr \<Rightarrow>
          (case call_to_flat gr of
             Inl e \<Rightarrow> Inl e
           | Inr g_flat \<Rightarrow>
               to_flatfile_loop gs (data @ [g_flat])
                 (add_fieldnames (map fst g_flat) fieldnames)))"

definition to_flatfile :: "json \<Rightarrow> error + ((string \<times> json) list list \<times> string list)" where
  "to_flatfile self_data =
     (case grants_of self_data of
        Inl e \<Rightarrow> Inl e
      | Inr v \<Rightarrow>
          (case py_iter v of
             Inl e \<Rightarrow> Inl e
           | Inr gs \<Rightarrow> to_flatfile_loop gs [] []))"

text \<open>
  The field names in the order in which they are first seen: the words of the
  specification for the list \<open>to_flatfile\<close> returns.
\<close>

primrec first_seen :: "'a list \<Rightarrow> 'a list" where
  "first_seen [] = []"
| "first_seen (x # xs) = x # filter (\<lambda>y. y \<noteq> x) (first_seen xs)"

section \<open>\<^verbatim>\<open>ThreeSixtyGiving.get_errors\<close>\<close>

text \<open>
  A \<^verbatim>\<open>jsonschema.ValidationError\<close>, with the attributes the program reads: the failing
  keyword \<^verbatim>\<open>validator\<close>, its value in the schema \<^verbatim>\<open>validator_value\<close>, and the message.
\<close>

datatype validation_error =
  ValidationError (validator: string) (validator_value: json) (message: string)

text \<open>\<^verbatim>\<open>x[0]\<close> on a JSON value.\<close>

fun getitem0 :: "json \<Rightarrow> error + json" where
  "getitem0 (JList []) = Inl IndexError"
| "getitem0 (JList (x # xs)) = Inr x"
| "getitem0 (JDict kvs) = Inl KeyError"
| "getitem0 (JStr []) = Inl IndexError"
| "getitem0 (JStr (c # cs)) = Inr (JStr [c])"
| "getitem0 _ = Inl TypeError"

definition date_time_format :: json where
  "date_time_format = JDict [(''format'', JStr ''date-time'')]"

text \<open>
  \<^verbatim>\<open>
  for e in self.validator.iter_errors(data):
      if e.validator == 'oneOf' and e.validator_value[0] == {'format': 'date-time'}:
          continue
      yield e
  \<close>
  The validator is jsonschema's: what it yields for a schema and a document is the
  list \<open>es\<close>, and \<open>fin\<close> is the exception it ends with, if it raises after the last
  error. The result is \<^verbatim>\<open>list(c.get_errors(c.data))\<close>.
\<close>

fun get_errors :: "validation_error list \<Rightarrow> error option \<Rightarrow> error + validation_error list" where
  "get_errors [] fin = (case fin of None \<Rightarrow> Inr [] | Some x \<Rightarrow> Inl x)"
| "get_errors (e # es) fin =
     (if validator e = ''oneOf''
      then (case getitem0 (validator_value e) of
              Inl x \<Rightarrow> Inl x
            | Inr first \<Rightarrow>
                if first = date_time_format then get_errors es fin
                else (case get_errors es fin of Inl x \<Rightarrow> Inl x | Inr ys \<Rightarrow> Inr (e # ys)))
      else (case get_errors es fin of Inl x \<Rightarrow> Inl x | Inr ys \<Rightarrow> Inr (e # ys)))"

text \<open>The errors the filter drops, and the errors on which the subscript raises.\<close>

definition suppressed :: "validation_error \<Rightarrow> bool" where
  "suppressed e \<longleftrightarrow> validator e = ''oneOf'' \<and> getitem0 (validator_value e) = Inr date_time_format"

definition subscriptable :: "validation_error \<Rightarrow> bool" where
  "subscriptable e \<longleftrightarrow> validator e = ''oneOf'' \<longrightarrow> \<not> isl (getitem0 (validator_value e))"

section \<open>\<^verbatim>\<open>recurse_names\<close> of \<^verbatim>\<open>ThreeSixtyGiving.fetch_schema\<close>\<close>

text \<open>
  \<^verbatim>\<open>
  def recurse_names(props, replace_names=OrderedDict(), prefix_k='', prefix_v=''):
      for i, prop in props.items():
          name_k = '{}.([0-9]+).{}'.format(prefix_k, i) if prefix_k != '' else i
          name_v = '{}:\\1:{}'.format(prefix_v, prop.get(
              "title", i)) if prefix_v != '' else prop.get("title", i)
          if prop.get("type") == 'array':
              replace_names = recurse_names(
                  prop.get("items", {}).get("properties", {}),
                  replace_names, name_k, name_v)
          else:
              replace_names[name_k] = name_v
      return replace_names
  \<close>
  The schema is a JSON value. \<^verbatim>\<open>items\<close> and \<^verbatim>\<open>get\<close> are methods of a dict only, so
  a property set, a property or an \<^verbatim>\<open>items\<close> value that is not a dict raises
  \<^verbatim>\<open>AttributeError\<close>. A title is a string in a JSON Schema; a title that is not a string
  is outside this model (\<open>Unmodelled\<close>).
\<close>

definition backslash :: char where
  "backslash = CHR 0x5C"

definition index_pattern :: string where
  "index_pattern = ''.([0-9]+).''"

definition index_template :: string where
  "index_template = [CHR '':'', backslash, CHR ''1'', CHR '':'']"

text \<open>\<^verbatim>\<open>prop.get("title", i)\<close>\<close>

definition title_of :: "(string \<times> json) list \<Rightarrow> string \<Rightarrow> error + string" where
  "title_of prop i =
     (case dict_get prop ''title'' of
        None \<Rightarrow> Inr i
      | Some (JStr t) \<Rightarrow> Inr t
      | Some _ \<Rightarrow> Inl Unmodelled)"

text \<open>\<^verbatim>\<open>prop.get("items", {}).get("properties", {})\<close>\<close>

definition items_properties :: "(string \<times> json) list \<Rightarrow> error + json" where
  "items_properties prop =
     (case dict_get prop ''items'' of
        None \<Rightarrow> Inr (JDict [])
      | Some (JDict it) \<Rightarrow>
          (case dict_get it ''properties'' of None \<Rightarrow> Inr (JDict []) | Some ps \<Rightarrow> Inr ps)
      | Some _ \<Rightarrow> Inl AttributeError)"

lemma size_dict_get:
  "dict_get kvs k = Some v \<Longrightarrow> size v < size_list (size_prod (\<lambda>x. 0) size) kvs"
  by (induction kvs) (auto simp: dict_get_def split: if_splits)

lemma size_items_properties:
  "items_properties prop = Inr sub \<Longrightarrow> size sub \<le> Suc (size_list (size_prod (\<lambda>x. 0) size) prop)"
proof (cases "dict_get prop ''items''")
  case None
  assume "items_properties prop = Inr sub"
  with None show ?thesis by (auto simp: items_properties_def)
next
  case (Some it)
  assume a: "items_properties prop = Inr sub"
  from size_dict_get[OF Some] have s: "size it < size_list (size_prod (\<lambda>x. 0) size) prop" .
  show ?thesis
  proof (cases it)
    case (JDict kvs)
    show ?thesis
    proof (cases "dict_get kvs ''properties''")
      case None
      with a Some JDict show ?thesis by (auto simp: items_properties_def)
    next
      case (Some ps)
      from size_dict_get[OF Some] JDict s \<open>dict_get prop ''items'' = Some it\<close> a Some
      show ?thesis by (auto simp: items_properties_def)
    qed
  qed (use a Some in \<open>auto simp: items_properties_def\<close>)
qed

function recurse_names ::
    "json \<Rightarrow> (string \<times> string) list \<Rightarrow> string \<Rightarrow> string \<Rightarrow> error + (string \<times> string) list"
  and recurse_names_loop ::
    "(string \<times> json) list \<Rightarrow> (string \<times> string) list \<Rightarrow> string \<Rightarrow> string
       \<Rightarrow> error + (string \<times> string) list" where
  "recurse_names (JDict props) replace_names prefix_k prefix_v =
     recurse_names_loop props replace_names prefix_k prefix_v"
| "recurse_names (JList xs) replace_names prefix_k prefix_v = Inl AttributeError"
| "recurse_names (JStr s) replace_names prefix_k prefix_v = Inl AttributeError"
| "recurse_names (JInt n) replace_names prefix_k prefix_v = Inl AttributeError"
| "recurse_names (JFloat m e) replace_names prefix_k prefix_v = Inl AttributeError"
| "recurse_names (JBool b) replace_names prefix_k prefix_v = Inl AttributeError"
| "recurse_names JNull replace_names prefix_k prefix_v = Inl AttributeError"
| "recurse_names_loop [] replace_names prefix_k prefix_v = Inr replace_names"
| "recurse_names_loop ((i, prop) # rest) replace_names prefix_k prefix_v =
     (let name_k = (if prefix_k \<noteq> '''' then prefix_k @ index_pattern @ i else i)
      in case prop of
           JDict p \<Rightarrow>
             (case title_of p i of
                Inl e \<Rightarrow> Inl e
              | Inr t \<Rightarrow>
                  (let name_v = (if prefix_v \<noteq> '''' then prefix_v @ index_template @ t else t)
                   in if dict_get p ''type'' = Some (JStr ''array'')
                      then (case items_properties p of
                              Inl e \<Rightarrow> Inl e
                            | Inr sub \<Rightarrow>
                                (case recurse_names sub replace_names name_k name_v of
                                   Inl e \<Rightarrow> Inl e
                                 | Inr replace_names' \<Rightarrow>
                                     recurse_names_loop rest replace_names' prefix_k prefix_v))
                      else recurse_names_loop rest (dict_set replace_names name_k name_v)
                             prefix_k prefix_v))
         | _ \<Rightarrow> Inl AttributeError)"
  by pat_completeness auto
termination
proof (relation "measure (\<lambda>a. case a of
      Inl (props, rn, pk, pv) \<Rightarrow> size props
    | Inr (kvs, rn, pk, pv) \<Rightarrow> size_list (size_prod (\<lambda>x. 0) size) kvs)")
qed (auto dest!: size_items_properties)

subsection \<open>Rule derivation as the specification words it\<close>

text \<open>
  Section 4.1 of the specification: for each property \<open>p\<close> with name \<open>n\<close>, the key pattern
  is \<open>n\<close> at the first level and the parent's pattern, \<^verbatim>\<open>.([0-9]+).\<close> and \<open>n\<close> below it; the
  value template is the title (or \<open>n\<close>) at the first level and the parent's template,
  \<^verbatim>\<open>:\1:\<close> and the title (or \<open>n\<close>) below it; an array property is entered through
  \<^verbatim>\<open>items.properties\<close> with the pair as the new prefix, any other property records the
  pair. \<open>derive_rules\<close> carries the level as a flag, where the program tests whether the
  prefixes are empty strings.
\<close>

definition is_array :: "(string \<times> json) list \<Rightarrow> bool" where
  "is_array p \<longleftrightarrow> dict_get p ''type'' = Some (JStr ''array'')"

definition title_or_name :: "(string \<times> json) list \<Rightarrow> string \<Rightarrow> string" where
  "title_or_name p n = (case title_of p n of Inr t \<Rightarrow> t | Inl e \<Rightarrow> n)"

definition sub_properties :: "(string \<times> json) list \<Rightarrow> (string \<times> json) list" where
  "sub_properties p = (case items_properties p of Inr (JDict ps) \<Rightarrow> ps | _ \<Rightarrow> [])"

lemma size_sub_properties:
  "size_list (size_prod (\<lambda>x. 0) size) (sub_properties p)
     \<le> size_list (size_prod (\<lambda>x. 0) size) p"
proof (cases "items_properties p")
  case (Inl e)
  then show ?thesis by (simp add: sub_properties_def)
next
  case (Inr sub)
  from size_items_properties[OF Inr] show ?thesis
    by (cases sub) (simp_all add: sub_properties_def Inr)
qed

lemma size_sub_properties_less:
  "size_list (size_prod (\<lambda>x. 0) size) (sub_properties p)
     < Suc (Suc (Suc (size_list (size_prod (\<lambda>x. 0) size) p + n)))"
  using size_sub_properties[of p] by simp

function derive_rules ::
    "bool \<Rightarrow> string \<Rightarrow> string \<Rightarrow> (string \<times> json) list \<Rightarrow> (string \<times> string) list" where
  "derive_rules first parent_pattern parent_template [] = []"
| "derive_rules first parent_pattern parent_template ((n, prop) # rest) =
     (case prop of
        JDict p \<Rightarrow>
          (let pattern = (if first then n else parent_pattern @ index_pattern @ n);
               template = (if first then title_or_name p n
                           else parent_template @ index_template @ title_or_name p n)
           in if is_array p then derive_rules False pattern template (sub_properties p)
              else [(pattern, template)])
      | _ \<Rightarrow> [])
     @ derive_rules first parent_pattern parent_template rest"
  by pat_completeness auto
termination
proof (relation "measure (\<lambda>(first, pp, pt, kvs). size_list (size_prod (\<lambda>x. 0) size) kvs)")
qed (auto simp: size_sub_properties_less)

text \<open>
  The same derivation with the two prefixes tested where the flag was: the pattern is the
  name when the parent's pattern is the empty string, and the template is the title (or
  the name) when the parent's template is the empty string, each on its own. Both prefixes
  are empty at the first level; below it the pattern is empty only under arrays whose
  names are all empty, and the template only under arrays whose titles (or names) are all
  empty.
\<close>

function derive_rules_by_prefix ::
    "string \<Rightarrow> string \<Rightarrow> (string \<times> json) list \<Rightarrow> (string \<times> string) list" where
  "derive_rules_by_prefix parent_pattern parent_template [] = []"
| "derive_rules_by_prefix parent_pattern parent_template ((n, prop) # rest) =
     (case prop of
        JDict p \<Rightarrow>
          (let pattern = (if parent_pattern = '''' then n
                          else parent_pattern @ index_pattern @ n);
               template = (if parent_template = '''' then title_or_name p n
                           else parent_template @ index_template @ title_or_name p n)
           in if is_array p then derive_rules_by_prefix pattern template (sub_properties p)
              else [(pattern, template)])
      | _ \<Rightarrow> [])
     @ derive_rules_by_prefix parent_pattern parent_template rest"
  by pat_completeness auto
termination
proof (relation "measure (\<lambda>(pp, pt, kvs). size_list (size_prod (\<lambda>x. 0) size) kvs)")
qed (auto simp: size_sub_properties_less)

text \<open>
  A property set the program reads without raising: every property is a dict whose title,
  if it has one, is a string, and an array property has a dict (or nothing) as its
  \<^verbatim>\<open>items\<close>, whose \<^verbatim>\<open>properties\<close> are again such a set.
\<close>

function wf_props :: "(string \<times> json) list \<Rightarrow> bool" where
  "wf_props [] = True"
| "wf_props ((n, prop) # rest) =
     ((case prop of
         JDict p \<Rightarrow>
           (case title_of p n of Inl e \<Rightarrow> False | Inr t \<Rightarrow> True) \<and>
           (if is_array p
            then (case items_properties p of Inr (JDict ps) \<Rightarrow> wf_props ps | _ \<Rightarrow> False)
            else True)
       | _ \<Rightarrow> False)
      \<and> wf_props rest)"
  by pat_completeness auto
termination
proof (relation "measure (size_list (size_prod (\<lambda>x. 0) size))")
qed (auto dest!: size_items_properties)

text \<open>
  No array property of the first level has the empty string as its name or as its title
  (its name, when it has no title).
\<close>

definition top_arrays_named :: "(string \<times> json) list \<Rightarrow> bool" where
  "top_arrays_named props =
     list_all (\<lambda>np. case snd np of
                  JDict p \<Rightarrow> \<not> is_array p \<or> (fst np \<noteq> '''' \<and> title_or_name p (fst np) \<noteq> '''')
                | _ \<Rightarrow> True) props"

text \<open>\<^verbatim>\<open>d[k] = v\<close> for each pair of a list, in order.\<close>

definition dict_update :: "('k \<times> 'v) list \<Rightarrow> ('k \<times> 'v) list \<Rightarrow> ('k \<times> 'v) list" where
  "dict_update d ps = foldl (\<lambda>d (k, v). dict_set d k v) d ps"

section \<open>\<^verbatim>\<open>ThreeSixtyGiving.convert_fieldnames\<close>\<close>

text \<open>
  \<^verbatim>\<open>
  fieldnames = OrderedDict(zip(fieldnames, fieldnames))
  for old, new in self.replace_names.items():
      for field in fieldnames:
          if re.fullmatch(old, field):
              fieldnames[field] = re.sub(old, new, field)
  return fieldnames
  \<close>
  \<^verbatim>\<open>re\<close> is Python's library, not code of the program: \<open>fullmatch\<close> and \<open>sub\<close> are
  parameters here, each returning its value or the exception it raises. The inner loop
  reads the keys of the dictionary, and an assignment to a key that is there changes
  neither the keys nor their order.
\<close>

fun convert_fields ::
  "(string \<Rightarrow> string \<Rightarrow> error + bool) \<Rightarrow> (string \<Rightarrow> string \<Rightarrow> string \<Rightarrow> error + string)
     \<Rightarrow> string \<Rightarrow> string \<Rightarrow> string list \<Rightarrow> (string \<times> string) list
     \<Rightarrow> error + (string \<times> string) list" where
  "convert_fields fullmatch sub old new [] fieldnames = Inr fieldnames"
| "convert_fields fullmatch sub old new (field # rest) fieldnames =
     (case fullmatch old field of
        Inl e \<Rightarrow> Inl e
      | Inr matched \<Rightarrow>
          if matched
          then (case sub old new field of
                  Inl e \<Rightarrow> Inl e
                | Inr s \<Rightarrow> convert_fields fullmatch sub old new rest (dict_set fieldnames field s))
          else convert_fields fullmatch sub old new rest fieldnames)"

fun convert_rules ::
  "(string \<Rightarrow> string \<Rightarrow> error + bool) \<Rightarrow> (string \<Rightarrow> string \<Rightarrow> string \<Rightarrow> error + string)
     \<Rightarrow> (string \<times> string) list \<Rightarrow> (string \<times> string) list
     \<Rightarrow> error + (string \<times> string) list" where
  "convert_rules fullmatch sub [] fieldnames = Inr fieldnames"
| "convert_rules fullmatch sub ((old, new) # rules) fieldnames =
     (case convert_fields fullmatch sub old new (map fst fieldnames) fieldnames of
        Inl e \<Rightarrow> Inl e
      | Inr fieldnames' \<Rightarrow> convert_rules fullmatch sub rules fieldnames')"

definition convert_fieldnames ::
  "(string \<Rightarrow> string \<Rightarrow> error + bool) \<Rightarrow> (string \<Rightarrow> string \<Rightarrow> string \<Rightarrow> error + string)
     \<Rightarrow> (string \<times> string) list \<Rightarrow> string list \<Rightarrow> error + (string \<times> string) list" where
  "convert_fieldnames fullmatch sub replace_names fieldnames =
     convert_rules fullmatch sub replace_names (py_dict (zip fieldnames fieldnames))"

subsection \<open>The mapping in closed form, and as the specification words it\<close>

text \<open>
  The rule that decides the display name of a field: the last one, in rule order, whose
  pattern matches the field name itself.
\<close>

definition last_match ::
  "(string \<Rightarrow> string \<Rightarrow> error + bool) \<Rightarrow> (string \<times> string) list \<Rightarrow> string
     \<Rightarrow> (string \<times> string) option" where
  "last_match fullmatch rules field =
     List.find (\<lambda>rule. fullmatch (fst rule) field = Inr True) (rev rules)"

definition display_name ::
  "(string \<Rightarrow> string \<Rightarrow> error + bool) \<Rightarrow> (string \<Rightarrow> string \<Rightarrow> string \<Rightarrow> error + string)
     \<Rightarrow> (string \<times> string) list \<Rightarrow> string \<Rightarrow> string" where
  "display_name fullmatch sub rules field =
     (case last_match fullmatch rules field of
        None \<Rightarrow> field
      | Some rule \<Rightarrow> (case sub (fst rule) (snd rule) field of Inr s \<Rightarrow> s | Inl e \<Rightarrow> field))"

text \<open>
  What one rule does to the display name of a field: \<open>sub_value\<close> is the string
  \<^verbatim>\<open>re.sub(old, new, field)\<close>.
\<close>

definition sub_value ::
  "(string \<Rightarrow> string \<Rightarrow> string \<Rightarrow> error + string) \<Rightarrow> string \<Rightarrow> string \<Rightarrow> string \<Rightarrow> string" where
  "sub_value sub old new field = (case sub old new field of Inr s \<Rightarrow> s | Inl e \<Rightarrow> field)"

definition apply_rule ::
  "(string \<Rightarrow> string \<Rightarrow> error + bool) \<Rightarrow> (string \<Rightarrow> string \<Rightarrow> string \<Rightarrow> error + string)
     \<Rightarrow> string \<Rightarrow> string \<Rightarrow> string \<times> string \<Rightarrow> string" where
  "apply_rule fm sb field current rule =
     (if fm (fst rule) field = Inr True then sub_value sb (fst rule) (snd rule) field else current)"

text \<open>
  Section 4.4 of the specification, third item: a later rule is matched against the
  current, possibly already rewritten string of a field and rewrites that string.
\<close>

fun layered_fields ::
  "(string \<Rightarrow> string \<Rightarrow> error + bool) \<Rightarrow> (string \<Rightarrow> string \<Rightarrow> string \<Rightarrow> error + string)
     \<Rightarrow> string \<Rightarrow> string \<Rightarrow> (string \<times> string) list \<Rightarrow> error + (string \<times> string) list" where
  "layered_fields fullmatch sub old new [] = Inr []"
| "layered_fields fullmatch sub old new ((field, current) # rest) =
     (case fullmatch old current of
        Inl e \<Rightarrow> Inl e
      | Inr matched \<Rightarrow>
          (case (if matched then sub old new current else Inr current) of
             Inl e \<Rightarrow> Inl e
           | Inr s \<Rightarrow>
               (case layered_fields fullmatch sub old new rest of
                  Inl e \<Rightarrow> Inl e
                | Inr rest' \<Rightarrow> Inr ((field, s) # rest'))))"

fun layered_rules ::
  "(string \<Rightarrow> string \<Rightarrow> error + bool) \<Rightarrow> (string \<Rightarrow> string \<Rightarrow> string \<Rightarrow> error + string)
     \<Rightarrow> (string \<times> string) list \<Rightarrow> (string \<times> string) list
     \<Rightarrow> error + (string \<times> string) list" where
  "layered_rules fullmatch sub [] fieldnames = Inr fieldnames"
| "layered_rules fullmatch sub ((old, new) # rules) fieldnames =
     (case layered_fields fullmatch sub old new fieldnames of
        Inl e \<Rightarrow> Inl e
      | Inr fieldnames' \<Rightarrow> layered_rules fullmatch sub rules fieldnames')"

definition layered_fieldnames ::
  "(string \<Rightarrow> string \<Rightarrow> error + bool) \<Rightarrow> (string \<Rightarrow> string \<Rightarrow> string \<Rightarrow> error + string)
     \<Rightarrow> (string \<times> string) list \<Rightarrow> string list \<Rightarrow> error + (string \<times> string) list" where
  "layered_fieldnames fullmatch sub replace_names fieldnames =
     layered_rules fullmatch sub replace_names (py_dict (zip fieldnames fieldnames))"

subsection \<open>The regular expressions of the rename rules\<close>

text \<open>
  A model of \<^verbatim>\<open>re.fullmatch\<close> and \<^verbatim>\<open>re.sub\<close> on the patterns and templates that
  \<open>recurse_names\<close> builds from names and titles without special characters: a pattern is
  a sequence of literal characters, of \<^verbatim>\<open>.\<close> (any character but a newline) and of the
  group \<^verbatim>\<open>([0-9]+)\<close> (one or more ASCII digits, greedy); a template is a sequence of
  literal characters and of references \<^verbatim>\<open>\1\<close> ... \<^verbatim>\<open>\9\<close> that no digit follows. Any other
  pattern or template is outside the model (\<open>Unmodelled\<close>). Matching is the backtracking
  search of \<^verbatim>\<open>re\<close>: the first match in the order that tries the longest run of digits
  first.
\<close>

datatype re_token = Lit char | AnyChar | Digits

definition re_special :: "char \<Rightarrow> bool" where
  "re_special c \<longleftrightarrow> c \<in> set ''.^$*+?{}[]|()'' \<or> c = backslash"

definition is_digit :: "char \<Rightarrow> bool" where
  "is_digit c \<longleftrightarrow> c \<in> set digit_chars"

definition group_pattern :: string where
  "group_pattern = ''([0-9]+)''"

function parse_pattern :: "string \<Rightarrow> re_token list option" where
  "parse_pattern s =
     (if s = [] then Some []
      else if take 8 s = group_pattern then map_option (Cons Digits) (parse_pattern (drop 8 s))
      else if hd s = CHR ''.'' then map_option (Cons AnyChar) (parse_pattern (tl s))
      else if re_special (hd s) then None
      else map_option (Cons (Lit (hd s))) (parse_pattern (tl s)))"
  by pat_completeness auto
termination
  by (relation "measure length") (auto simp: group_pattern_def)

declare parse_pattern.simps [simp del]

fun first_some :: "'a option list \<Rightarrow> 'a option" where
  "first_some [] = None"
| "first_some (None # xs) = first_some xs"
| "first_some (Some y # xs) = Some y"

text \<open>
  \<open>match_here full ts s\<close>: the first match of the tokens at the start of \<open>s\<close>, as the
  captured groups and the rest of the string; with \<open>full\<close>, only a match that ends at
  the end of the string counts.
\<close>

fun match_here :: "bool \<Rightarrow> re_token list \<Rightarrow> string \<Rightarrow> (string list \<times> string) option" where
  "match_here full [] s = (if full \<and> s \<noteq> [] then None else Some ([], s))"
| "match_here full (Lit c # ts) s =
     (case s of [] \<Rightarrow> None | x # xs \<Rightarrow> if x = c then match_here full ts xs else None)"
| "match_here full (AnyChar # ts) s =
     (case s of [] \<Rightarrow> None | x # xs \<Rightarrow> if x \<noteq> CHR 0x0A then match_here full ts xs else None)"
| "match_here full (Digits # ts) s =
     first_some
       (map (\<lambda>n. map_option (\<lambda>(groups, r). (take n s # groups, r)) (match_here full ts (drop n s)))
            (rev [1..<Suc (length (takeWhile is_digit s))]))"

definition re_fullmatch :: "string \<Rightarrow> string \<Rightarrow> error + bool" where
  "re_fullmatch pattern s =
     (case parse_pattern pattern of
        None \<Rightarrow> Inl Unmodelled
      | Some ts \<Rightarrow> Inr (match_here True ts s \<noteq> None))"

datatype template_item = TLit char | TGroup nat

definition digit_value :: "char \<Rightarrow> nat" where
  "digit_value c = (case List.find (\<lambda>n. digit_chars ! n = c) [0..<10] of Some n \<Rightarrow> n | None \<Rightarrow> 0)"

fun parse_template :: "string \<Rightarrow> template_item list option" where
  "parse_template [] = Some []"
| "parse_template [c] = (if c = backslash then None else Some [TLit c])"
| "parse_template (c # d # rest) =
     (if c = backslash
      then (if is_digit d \<and> d \<noteq> CHR ''0'' \<and> (rest = [] \<or> \<not> is_digit (hd rest))
            then map_option (Cons (TGroup (digit_value d))) (parse_template rest)
            else None)
      else map_option (Cons (TLit c)) (parse_template (d # rest)))"

fun n_groups :: "re_token list \<Rightarrow> nat" where
  "n_groups [] = 0"
| "n_groups (Digits # ts) = Suc (n_groups ts)"
| "n_groups (t # ts) = n_groups ts"

fun group_refs_ok :: "nat \<Rightarrow> template_item list \<Rightarrow> bool" where
  "group_refs_ok n [] = True"
| "group_refs_ok n (TGroup k # items) = (k \<le> n \<and> group_refs_ok n items)"
| "group_refs_ok n (TLit c # items) = group_refs_ok n items"

fun expand :: "template_item list \<Rightarrow> string list \<Rightarrow> string" where
  "expand [] groups = []"
| "expand (TLit c # items) groups = c # expand items groups"
| "expand (TGroup k # items) groups = groups ! (k - 1) @ expand items groups"

text \<open>
  The scan of \<^verbatim>\<open>re.sub\<close>: the leftmost match is replaced and the scan goes on behind it;
  where nothing matches, the character is copied. An empty match (of the empty pattern
  only) is replaced and the following character copied.
\<close>

function sub_scan :: "re_token list \<Rightarrow> template_item list \<Rightarrow> string \<Rightarrow> string" where
  "sub_scan ts items s =
     (case match_here False ts s of
        Some (groups, r) \<Rightarrow>
          if length r < length s then expand items groups @ sub_scan ts items r
          else expand items groups @ (case s of [] \<Rightarrow> [] | c # cs \<Rightarrow> c # sub_scan ts items cs)
      | None \<Rightarrow> (case s of [] \<Rightarrow> [] | c # cs \<Rightarrow> c # sub_scan ts items cs))"
  by pat_completeness auto
termination
  by (relation "measure (\<lambda>(ts, items, s). length s)") auto

declare sub_scan.simps [simp del]

definition re_sub :: "string \<Rightarrow> string \<Rightarrow> string \<Rightarrow> error + string" where
  "re_sub pattern repl s =
     (case parse_pattern pattern of
        None \<Rightarrow> Inl Unmodelled
      | Some ts \<Rightarrow>
          (case parse_template repl of
             None \<Rightarrow> Inl Unmodelled
           | Some items \<Rightarrow>
               if group_refs_ok (n_groups ts) items then Inr (sub_scan ts items s)
               else Inl ReError))"

section \<open>Loading: \<^verbatim>\<open>from_json\<close>, \<^verbatim>\<open>from_csv\<close>, \<^verbatim>\<open>from_excel\<close>, \<^verbatim>\<open>from_file\<close>\<close>

text \<open>
  The object of class \<^verbatim>\<open>ThreeSixtyGiving\<close>, with the attributes \<^verbatim>\<open>__init__\<close> sets. The
  attribute \<^verbatim>\<open>validator\<close> is a \<^verbatim>\<open>Draft4Validator\<close>; what the model keeps of it is the
  schema it is bound to (\<open>validator_schema\<close>).
\<close>

record threesixty =
  schema :: "json option"
  schema_url :: string
  validator_schema :: "json option"
  errors :: "validation_error list"
  valid :: bool
  replace_names :: "(string \<times> string) list"
  data :: json

text \<open>
  What the program calls outside itself, each call returning its value or the exception
  it raises: \<^verbatim>\<open>open\<close> and \<^verbatim>\<open>json.load\<close> on a file, \<^verbatim>\<open>requests.get(url).json()\<close>,
  \<^verbatim>\<open>JsonRef.replace_refs\<close>, the errors \<^verbatim>\<open>Draft4Validator(schema).iter_errors(data)\<close>
  yields (and the exception it ends with, if any), \<^verbatim>\<open>flattentool.unflatten\<close> from an
  input format, a file and an encoding to the JSON file it writes, and whether a file
  decodes in an encoding.
\<close>

record 'f env =
  json_load :: "'f \<Rightarrow> error + json"
  requests_get_json :: "string \<Rightarrow> error + json"
  replace_refs :: "json \<Rightarrow> error + json"
  iter_errors :: "json \<Rightarrow> json \<Rightarrow> validation_error list \<times> error option"
  unflatten :: "string \<Rightarrow> 'f \<Rightarrow> string option \<Rightarrow> error + 'f"
  decodes :: "'f \<Rightarrow> string \<Rightarrow> bool"

text \<open>An exception of the first step ends the sequence.\<close>

definition then_do :: "error + 'a \<Rightarrow> ('a \<Rightarrow> error + 'b) \<Rightarrow> error + 'b" where
  "then_do r k = (case r of Inl e \<Rightarrow> Inl e | Inr v \<Rightarrow> k v)"

definition default_schema_url :: string where
  "default_schema_url =
     ''https://raw.githubusercontent.com/ThreeSixtyGiving/standard/master/schema/360-giving-package-schema.json''"

text \<open>
  \<^verbatim>\<open>
  def __init__(self, schema_url=None):
      self.schema = None
      if schema_url:
          self.schema_url = schema_url
      self.validator = None
      self.errors = []
      self.valid = False
      self.replace_names = OrderedDict()
      self.data = {}
  \<close>
\<close>

definition init :: "string option \<Rightarrow> threesixty" where
  "init url =
     \<lparr>schema = None,
      schema_url = (case url of None \<Rightarrow> default_schema_url
                    | Some u \<Rightarrow> if u \<noteq> '''' then u else default_schema_url),
      validator_schema = None,
      errors = [],
      valid = False,
      replace_names = [],
      data = JDict []\<rparr>"

text \<open>\<^verbatim>\<open>x[key]\<close> with a string key: a missing key raises, and so does any value but a dict.\<close>

fun getitem :: "json \<Rightarrow> string \<Rightarrow> error + json" where
  "getitem (JDict kvs) key = (case dict_get kvs key of None \<Rightarrow> Inl KeyError | Some v \<Rightarrow> Inr v)"
| "getitem _ key = Inl TypeError"

text \<open>
  \<^verbatim>\<open>
  self.schema = requests.get(self.schema_url).json()
  self.schema = JsonRef.replace_refs(self.schema)
  self.validator = Draft4Validator(self.schema, format_checker=FormatChecker())
  self.replace_names = recurse_names(
      self.schema['properties'][self.root_id]['items']['properties'],
      self.replace_names)
  \<close>
\<close>

definition fetch_schema :: "'f env \<Rightarrow> threesixty \<Rightarrow> error + threesixty" where
  "fetch_schema world self =
     then_do (requests_get_json world (schema_url self)) (\<lambda>fetched.
     then_do (replace_refs world fetched) (\<lambda>s.
     then_do (getitem s ''properties'') (\<lambda>a.
     then_do (getitem a root_id) (\<lambda>b.
     then_do (getitem b ''items'') (\<lambda>c.
     then_do (getitem c ''properties'') (\<lambda>props.
     then_do (recurse_names props (replace_names self) '''' '''') (\<lambda>names.
       Inr (self\<lparr>schema := Some s, validator_schema := Some s, replace_names := names\<rparr>))))))))"

text \<open>\<^verbatim>\<open>list(c.get_errors(c.data))\<close>: without a validator, \<^verbatim>\<open>None.iter_errors\<close> raises.\<close>

definition get_errors_of :: "'f env \<Rightarrow> threesixty \<Rightarrow> json \<Rightarrow> error + validation_error list" where
  "get_errors_of world self d =
     (case validator_schema self of
        None \<Rightarrow> Inl AttributeError
      | Some s \<Rightarrow> (case iter_errors world s d of (es, fin) \<Rightarrow> get_errors es fin))"

text \<open>
  \<^verbatim>\<open>
  c = cls(schema_url=schema_url)
  ...
  c.data = json.load(fileobj)
  fileobj.close()
  c.fetch_schema()
  c.errors = list(c.get_errors(c.data))
  if c.errors:
      raise ValueError("Invalid file")
  c.valid = len(c.errors) == 0
  return c
  \<close>
\<close>

definition from_json :: "'f env \<Rightarrow> 'f \<Rightarrow> string option \<Rightarrow> error + threesixty" where
  "from_json world f url =
     then_do (json_load world f) (\<lambda>d.
     then_do (fetch_schema world ((init url)\<lparr>data := d\<rparr>)) (\<lambda>c.
     then_do (get_errors_of world c (data c)) (\<lambda>errs.
       if errs \<noteq> [] then Inl ValueError
       else Inr (c\<lparr>errors := errs, valid := (length errs = 0)\<rparr>))))"

definition ENCODINGS_TO_CHECK :: "string list" where
  "ENCODINGS_TO_CHECK = [''utf-8-sig'', ''cp1252'', ''latin_1'']"

text \<open>\<^verbatim>\<open>guess_encoding\<close>: the first encoding in which the file decodes, or \<^verbatim>\<open>None\<close>.\<close>

definition guess_encoding :: "'f env \<Rightarrow> 'f \<Rightarrow> string list \<Rightarrow> string option" where
  "guess_encoding world f encodings = List.find (decodes world f) encodings"

text \<open>
  \<^verbatim>\<open>from_csv(cls, f, encoding=None, **kwargs)\<close> and
  \<^verbatim>\<open>from_excel(cls, f, encoding='utf8', **kwargs)\<close> convert the file with
  \<^verbatim>\<open>flattentool.unflatten\<close> and load the JSON file it wrote.
\<close>

definition from_csv :: "'f env \<Rightarrow> 'f \<Rightarrow> string option \<Rightarrow> string option \<Rightarrow> error + threesixty" where
  "from_csv world f encoding url =
     (let enc = (case encoding of
                   None \<Rightarrow> guess_encoding world f ENCODINGS_TO_CHECK
                 | Some e \<Rightarrow> if e \<noteq> '''' then Some e
                             else guess_encoding world f ENCODINGS_TO_CHECK)
      in then_do (unflatten world ''csv'' f enc) (\<lambda>json_output. from_json world json_output url))"

definition from_excel :: "'f env \<Rightarrow> 'f \<Rightarrow> string \<Rightarrow> string option \<Rightarrow> error + threesixty" where
  "from_excel world f encoding url =
     then_do (unflatten world ''xlsx'' f (Some encoding)) (\<lambda>json_output.
       from_json world json_output url)"

text \<open>
  The keyword arguments \<^verbatim>\<open>from_file\<close> passes on: \<^verbatim>\<open>encoding\<close> and \<^verbatim>\<open>schema_url\<close>, each
  given or not. \<^verbatim>\<open>from_json\<close> has no parameter \<^verbatim>\<open>encoding\<close> and raises \<^verbatim>\<open>TypeError\<close> when
  it gets one.
  \<^verbatim>\<open>
  if filetype == 'json':
      return cls.from_json(f, **kwargs)
  elif filetype == 'csv':
      return cls.from_csv(f, **kwargs)
  elif filetype in ['xlsx', 'xls', 'excel']:
      return cls.from_excel(f, **kwargs)
  \<close>
  The function ends there: for any other file type it returns \<^verbatim>\<open>None\<close>, which is the
  result \<open>Inr None\<close> here.
\<close>

record kwargs =
  kw_encoding :: "string option"
  kw_schema_url :: "string option"

definition from_file :: "'f env \<Rightarrow> 'f \<Rightarrow> string \<Rightarrow> kwargs \<Rightarrow> error + threesixty option" where
  "from_file world f filetype kw =
     (if filetype = ''json''
      then (case kw_encoding kw of
              Some e \<Rightarrow> Inl TypeError
            | None \<Rightarrow> map_sum id Some (from_json world f (kw_schema_url kw)))
      else if filetype = ''csv''
      then map_sum id Some (from_csv world f (kw_encoding kw) (kw_schema_url kw))
      else if filetype \<in> set [''xlsx'', ''xls'', ''excel'']
      then map_sum id Some
             (from_excel world f (case kw_encoding kw of None \<Rightarrow> ''utf8'' | Some e \<Rightarrow> e)
                (kw_schema_url kw))
      else Inr None)"

subsection \<open>An example world\<close>

text \<open>
  A world for examples: every file holds one grant, the schema declares the property
  \<open>id\<close> of a grant, and the validator reports the errors \<open>es\<close>. \<open>example_loaded\<close> is the
  instance after the schema has been fetched.
\<close>

definition example_schema :: json where
  "example_schema = JDict [(''properties'', JDict [(''grants'',
         JDict [(''items'', JDict [(''properties'',
           JDict [(''id'', JDict [(''title'', JStr ''Identifier'')])])])])])]"

definition example_doc :: json where
  "example_doc = JDict [(''grants'', JList [JDict [(''id'', JStr ''g1'')]])]"

definition example_world :: "validation_error list \<Rightarrow> string env" where
  "example_world es =
     \<lparr>json_load = (\<lambda>f. Inr example_doc),
      requests_get_json = (\<lambda>u. Inr example_schema),
      replace_refs = Inr,
      iter_errors = (\<lambda>s d. (es, None)),
      unflatten = (\<lambda>fmt f enc. Inl IOError),
      decodes = (\<lambda>f e. True)\<rparr>"

definition example_loaded :: threesixty where
  "example_loaded =
     \<lparr>schema = Some example_schema, schema_url = default_schema_url,
      validator_schema = Some example_schema, errors = [], valid = False,
      replace_names = [(''id'', ''Identifier'')], data = example_doc\<rparr>"

section \<open>Properties of the flattener\<close>

lemma flatten_list_zip:
  "flatten (JList xs) prefix = flatten_loop (zip (map str_nat [0..<length xs]) xs) prefix"
  by (simp add: py_dict_enumerate)

lemma flatten_loop_append:
  "flatten_loop (xs @ ys) prefix = flatten_loop xs prefix @ flatten_loop ys prefix"
  by (induction xs) auto

lemma flatten_scalars:
  "(\<forall>kv \<in> set (flatten x prefix). \<not> is_list (snd kv) \<and> \<not> is_dict (snd kv))"
  "(\<forall>kv \<in> set (flatten_loop kvs prefix). \<not> is_list (snd kv) \<and> \<not> is_dict (snd kv))"
  by (induction x prefix and kvs prefix rule: flatten_flatten_loop.induct) auto

lemma flatten_refines_nested:
  "prefix \<noteq> '''' \<longrightarrow> flatten x prefix = flatten_spec False prefix (entries_spec x)"
  "prefix \<noteq> '''' \<longrightarrow> flatten_loop kvs prefix = flatten_spec False prefix kvs"
proof (induction x prefix and kvs prefix rule: flatten_flatten_loop.induct)
  case (1 xs prefix)
  then show ?case by (simp add: py_dict_enumerate)
next
  case (9 v x rest prefix)
  then show ?case by (auto simp: new_key_def flat_key_spec_def)
qed simp_all

lemma flatten_refines_top:
  "'''' \<notin> fst ` set kvs \<Longrightarrow> flatten_loop kvs '''' = flatten_spec True '''' kvs"
proof (induction kvs)
  case Nil
  then show ?case by simp
next
  case (Cons kv kvs)
  obtain k x where kv: "kv = (k, x)" by (cases kv)
  from Cons.prems have k: "k \<noteq> ''''" and rest: "'''' \<notin> fst ` set kvs"
    by (auto simp: kv)
  have nk: "new_key '''' k = k" "flat_key_spec True '''' k = k"
    by (simp_all add: new_key_def flat_key_spec_def)
  from flatten_refines_nested(1)[of k x] k
  have "flatten x k = flatten_spec False k (entries_spec x)" by simp
  with Cons.IH[OF rest] show ?case by (simp add: kv nk)
qed

lemma takeWhile_segment:
  assumes "CHR ''.'' \<notin> set k" and "r = [] \<or> hd r = CHR ''.''"
  shows "takeWhile (\<lambda>c. c \<noteq> CHR ''.'') (k @ r) = k"
proof -
  from assms(1) have "takeWhile (\<lambda>c. c \<noteq> CHR ''.'') (k @ r) = k @ takeWhile (\<lambda>c. c \<noteq> CHR ''.'') r"
    by (intro takeWhile_append2) auto
  moreover from assms(2) have "takeWhile (\<lambda>c. c \<noteq> CHR ''.'') r = []"
    by (cases r) auto
  ultimately show ?thesis by simp
qed

lemma key_segment_unique:
  assumes "CHR ''.'' \<notin> set k1" and "CHR ''.'' \<notin> set k2"
    and "r1 = [] \<or> hd r1 = CHR ''.''" and "r2 = [] \<or> hd r2 = CHR ''.''"
    and "new_key p k1 @ r1 = new_key p k2 @ r2"
  shows "k1 = k2"
proof -
  from assms(5) have "k1 @ r1 = k2 @ r2"
    by (simp add: new_key_def split: if_splits)
  then have "takeWhile (\<lambda>c. c \<noteq> CHR ''.'') (k1 @ r1) = takeWhile (\<lambda>c. c \<noteq> CHR ''.'') (k2 @ r2)"
    by simp
  with assms(1-4) show ?thesis by (simp add: takeWhile_segment)
qed

lemma str_nat_digits: "set (str_nat n) \<subseteq> set digit_chars"
proof (induction n rule: str_nat.induct)
  case (1 n)
  show ?case
  proof (cases "n < 10")
    case True
    then show ?thesis by (simp add: str_nat.simps[of n] length_digit_chars)
  next
    case False
    with "1.IH" show ?thesis by (simp add: str_nat.simps[of n] length_digit_chars)
  qed
qed

lemma str_nat_no_dot: "CHR ''.'' \<notin> set (str_nat n)"
proof -
  have "CHR ''.'' \<notin> set digit_chars" by (simp add: digit_chars_def)
  with str_nat_digits[of n] show ?thesis by blast
qed

lemma keys_ok_enumerate:
  assumes "keys_ok (JList xs)"
  shows "keys_ok (JDict (zip (map str_nat [0..<length xs]) xs))"
proof -
  have fst_zip: "map fst (zip (map str_nat [0..<length xs]) xs) = map str_nat [0..<length xs]"
    by (simp add: map_fst_zip)
  have "\<forall>kv \<in> set (zip (map str_nat [0..<length xs]) xs).
          fst kv \<noteq> '''' \<and> CHR ''.'' \<notin> set (fst kv) \<and> keys_ok (snd kv)"
  proof
    fix kv assume kv: "kv \<in> set (zip (map str_nat [0..<length xs]) xs)"
    obtain k x where e: "kv = (k, x)" by (cases kv)
    from kv e have "k \<in> set (map str_nat [0..<length xs])" and "x \<in> set xs"
      by (auto dest: set_zip_leftD set_zip_rightD)
    with assms show "fst kv \<noteq> '''' \<and> CHR ''.'' \<notin> set (fst kv) \<and> keys_ok (snd kv)"
      by (auto simp: e list_all_iff str_nat_nonempty str_nat_no_dot)
  qed
  then show ?thesis
    by (simp add: fst_zip distinct_str_nat_upt list_all_iff del: map_map)
qed

lemma loop_keys_prefixed:
  assumes "\<forall>key \<in> fst ` set ys. \<exists>k \<in> K. \<exists>r. key = new_key p k @ r \<and> (r = [] \<or> hd r = CHR ''.'')"
    and "p \<noteq> []"
  shows "\<forall>key \<in> fst ` set ys. \<exists>r. key = p @ [CHR ''.''] @ r"
proof
  fix key assume "key \<in> fst ` set ys"
  with assms(1) obtain k r where "key = new_key p k @ r" by blast
  with assms(2) have "key = p @ [CHR ''.''] @ (k @ r)" by (simp add: new_key_def)
  then show "\<exists>r. key = p @ [CHR ''.''] @ r" by blast
qed

lemma flatten_keys_distinct:
  "keys_ok x \<longrightarrow>
     distinct (map fst (flatten x p)) \<and>
     (p \<noteq> [] \<longrightarrow> (\<forall>key \<in> fst ` set (flatten x p). \<exists>r. key = p @ [CHR ''.''] @ r))"
  "keys_ok (JDict kvs) \<longrightarrow>
     distinct (map fst (flatten_loop kvs p)) \<and>
     (\<forall>key \<in> fst ` set (flatten_loop kvs p).
        \<exists>k \<in> fst ` set kvs. \<exists>r. key = new_key p k @ r \<and> (r = [] \<or> hd r = CHR ''.''))"
proof (induction x p and kvs p rule: flatten_flatten_loop.induct)
  case (1 xs prefix)
  show ?case
  proof
    assume ok: "keys_ok (JList xs)"
    let ?es = "zip (map str_nat [0..<length xs]) xs"
    have eq: "flatten (JList xs) prefix = flatten_loop ?es prefix"
      by (simp add: py_dict_enumerate)
    from "1.IH"[unfolded py_dict_enumerate] keys_ok_enumerate[OF ok]
    have d: "distinct (map fst (flatten_loop ?es prefix))"
      and f: "\<forall>key \<in> fst ` set (flatten_loop ?es prefix).
        \<exists>k \<in> fst ` set ?es. \<exists>r. key = new_key prefix k @ r \<and> (r = [] \<or> hd r = CHR ''.'')"
      by blast+
    from d loop_keys_prefixed[OF f]
    show "distinct (map fst (flatten (JList xs) prefix)) \<and>
     (prefix \<noteq> [] \<longrightarrow> (\<forall>key \<in> fst ` set (flatten (JList xs) prefix). \<exists>r. key = prefix @ [CHR ''.''] @ r))"
      unfolding eq by blast
  qed
next
  case (2 kvs prefix)
  show ?case
  proof
    assume ok: "keys_ok (JDict kvs)"
    have eq: "flatten (JDict kvs) prefix = flatten_loop kvs prefix" by simp
    from ok "2.IH"
    have d: "distinct (map fst (flatten_loop kvs prefix))"
      and f: "\<forall>key \<in> fst ` set (flatten_loop kvs prefix).
        \<exists>k \<in> fst ` set kvs. \<exists>r. key = new_key prefix k @ r \<and> (r = [] \<or> hd r = CHR ''.'')"
      by blast+
    from d loop_keys_prefixed[OF f]
    show "distinct (map fst (flatten (JDict kvs) prefix)) \<and>
     (prefix \<noteq> [] \<longrightarrow> (\<forall>key \<in> fst ` set (flatten (JDict kvs) prefix). \<exists>r. key = prefix @ [CHR ''.''] @ r))"
      unfolding eq by blast
  qed
next
  case (9 v x rest prefix)
  show ?case
  proof
    assume ok: "keys_ok (JDict ((v, x) # rest))"
    then have v: "v \<noteq> []" "CHR ''.'' \<notin> set v" and okx: "keys_ok x"
      and fresh: "v \<notin> fst ` set rest" and okr: "keys_ok (JDict rest)"
      by (auto simp: list_all_iff)
    from okr have nodot: "\<forall>k \<in> fst ` set rest. CHR ''.'' \<notin> set k"
      by (auto simp: list_all_iff)
    let ?q = "new_key prefix v"
    let ?head = "if is_list x then flatten x ?q else if is_dict x then flatten x ?q else [(?q, x)]"
    have q: "?q \<noteq> []" using v by (simp add: new_key_def)
    have nested: "distinct (map fst (flatten x ?q)) \<and>
        (\<forall>key \<in> fst ` set (flatten x ?q). \<exists>r. key = ?q @ [CHR ''.''] @ r)"
      if c: "is_list x \<or> is_dict x"
    proof (cases "is_list x")
      case True
      from "9.IH"(1)[OF True] okx q show ?thesis by blast
    next
      case False
      with c have "is_dict x" by simp
      from "9.IH"(2)[OF False this] okx q show ?thesis by blast
    qed
    have hd_d: "distinct (map fst ?head)"
    proof (cases "is_list x \<or> is_dict x")
      case True
      from nested[OF True] True show ?thesis by auto
    next
      case False
      then show ?thesis by simp
    qed
    have hd_f: "\<forall>key \<in> fst ` set ?head. \<exists>r. key = ?q @ r \<and> (r = [] \<or> hd r = CHR ''.'')"
    proof
      fix key assume key: "key \<in> fst ` set ?head"
      show "\<exists>r. key = ?q @ r \<and> (r = [] \<or> hd r = CHR ''.'')"
      proof (cases "is_list x \<or> is_dict x")
        case True
        with key have "key \<in> fst ` set (flatten x ?q)" by (auto split: if_splits)
        with nested[OF True] obtain r where "key = ?q @ [CHR ''.''] @ r" by blast
        then have "key = ?q @ (CHR ''.'' # r) \<and> hd (CHR ''.'' # r) = CHR ''.''" by simp
        then show ?thesis by blast
      next
        case False
        with key have "key = ?q @ []" by simp
        then show ?thesis by blast
      qed
    qed
    from "9.IH"(3) okr
    have tl_d: "distinct (map fst (flatten_loop rest prefix))"
      and tl_f: "\<forall>key \<in> fst ` set (flatten_loop rest prefix).
        \<exists>k \<in> fst ` set rest. \<exists>r. key = new_key prefix k @ r \<and> (r = [] \<or> hd r = CHR ''.'')"
      by blast+
    have disj: "fst ` set ?head \<inter> fst ` set (flatten_loop rest prefix) = {}"
    proof (rule ccontr)
      assume "fst ` set ?head \<inter> fst ` set (flatten_loop rest prefix) \<noteq> {}"
      then obtain key where k1: "key \<in> fst ` set ?head"
        and k2: "key \<in> fst ` set (flatten_loop rest prefix)" by blast
      from hd_f k1 obtain r1 where r1: "key = ?q @ r1" "r1 = [] \<or> hd r1 = CHR ''.''" by blast
      from tl_f k2 obtain k r2 where r2: "k \<in> fst ` set rest" "key = new_key prefix k @ r2"
        "r2 = [] \<or> hd r2 = CHR ''.''" by blast
      from nodot r2(1) have kd: "CHR ''.'' \<notin> set k" by blast
      from r1(1) r2(2) have "?q @ r1 = new_key prefix k @ r2" by simp
      from key_segment_unique[OF v(2) kd r1(2) r2(3) this] have "v = k" .
      with fresh r2(1) show False by simp
    qed
    have flat: "flatten_loop ((v, x) # rest) prefix = ?head @ flatten_loop rest prefix"
      by simp
    have all_d: "distinct (map fst (?head @ flatten_loop rest prefix))"
      using hd_d tl_d disj by (simp only: map_append distinct_append set_map) 
    have all_f: "\<forall>key \<in> fst ` set (?head @ flatten_loop rest prefix).
        \<exists>k \<in> fst ` set ((v, x) # rest). \<exists>r. key = new_key prefix k @ r \<and> (r = [] \<or> hd r = CHR ''.'')"
    proof
      fix key assume "key \<in> fst ` set (?head @ flatten_loop rest prefix)"
      then have "key \<in> fst ` set ?head \<or> key \<in> fst ` set (flatten_loop rest prefix)"
        by (simp only: set_append image_Un Un_iff)
      then show "\<exists>k \<in> fst ` set ((v, x) # rest). \<exists>r. key = new_key prefix k @ r \<and> (r = [] \<or> hd r = CHR ''.'')"
      proof
        assume "key \<in> fst ` set ?head"
        with hd_f obtain r where "key = ?q @ r \<and> (r = [] \<or> hd r = CHR ''.'')" by blast
        moreover have "v \<in> fst ` set ((v, x) # rest)" by simp
        ultimately show ?thesis by blast
      next
        assume "key \<in> fst ` set (flatten_loop rest prefix)"
        with tl_f obtain k r where "k \<in> fst ` set rest"
          "key = new_key prefix k @ r \<and> (r = [] \<or> hd r = CHR ''.'')" by blast
        moreover then have "k \<in> fst ` set ((v, x) # rest)" by simp
        ultimately show ?thesis by blast
      qed
    qed
    from all_d all_f
    show "distinct (map fst (flatten_loop ((v, x) # rest) prefix)) \<and>
     (\<forall>key \<in> fst ` set (flatten_loop ((v, x) # rest) prefix).
        \<exists>k \<in> fst ` set ((v, x) # rest). \<exists>r. key = new_key prefix k @ r \<and> (r = [] \<or> hd r = CHR ''.''))"
      unfolding flat by blast
  qed
qed simp_all

lemma flatten_loop_drop_empty:
  "flatten_loop (pre @ (k, JList []) # post) prefix = flatten_loop (pre @ post) prefix"
  "flatten_loop (pre @ (k, JDict []) # post) prefix = flatten_loop (pre @ post) prefix"
  by (simp_all add: flatten_loop_append py_dict_def)

lemma flat_key_absent:
  assumes ok: "keys_ok (JDict (pre @ (k, e) # post))"
  shows "new_key prefix k \<notin> fst ` set (flatten_loop (pre @ post) prefix)"
proof
  assume "new_key prefix k \<in> fst ` set (flatten_loop (pre @ post) prefix)"
  moreover from ok have okr: "keys_ok (JDict (pre @ post))" by (auto simp: list_all_iff)
  ultimately obtain k' r where k': "k' \<in> fst ` set (pre @ post)"
    and eq: "new_key prefix k = new_key prefix k' @ r" and r: "r = [] \<or> hd r = CHR ''.''"
    using flatten_keys_distinct(2)[of "pre @ post" prefix] by blast
  from ok have kd: "CHR ''.'' \<notin> set k" and fresh: "k \<notin> fst ` set (pre @ post)"
    by (auto simp: list_all_iff)
  from okr k' have k'd: "CHR ''.'' \<notin> set k'" by (auto simp: list_all_iff)
  have "new_key prefix k @ [] = new_key prefix k' @ r" using eq by simp
  from key_segment_unique[OF kd k'd _ r this] have "k = k'" by simp
  with fresh k' show False by simp
qed

text \<open>
  C10 (as amended): a field whose value is an empty sequence or an empty mapping
  contributes no pair to the flattened output: the output is that of the record without
  the field, and no pair of any output has a sequence or a mapping as its value. The flat
  key of the field is therefore in the output only when the other fields produce it, and
  it is absent whenever the keys of the record are distinct, non-empty and free of dots.
\<close>

theorem empty_container_contributes_no_pair:
  "flatten_loop (pre @ (k, JList []) # post) prefix = flatten_loop (pre @ post) prefix
   \<and> flatten_loop (pre @ (k, JDict []) # post) prefix = flatten_loop (pre @ post) prefix
   \<and> to_flat (pre @ (k, JList []) # post) = to_flat (pre @ post)
   \<and> to_flat (pre @ (k, JDict []) # post) = to_flat (pre @ post)
   \<and> (\<forall>kv \<in> set (flatten_loop kvs prefix). \<not> is_list (snd kv) \<and> \<not> is_dict (snd kv))
   \<and> ((e = JList [] \<or> e = JDict []) \<and> keys_ok (JDict (pre @ (k, e) # post))
        \<longrightarrow> k \<notin> fst ` set (to_flat (pre @ (k, e) # post)))"
proof -
  have absent: "k \<notin> fst ` set (to_flat (pre @ (k, e) # post))"
    if e: "e = JList [] \<or> e = JDict []" and ok: "keys_ok (JDict (pre @ (k, e) # post))"
  proof -
    from e have "to_flat (pre @ (k, e) # post) = to_flat (pre @ post)"
      by (auto simp: to_flat_def flatten_loop_drop_empty)
    moreover from ok have "keys_ok (JDict (pre @ post))" by (auto simp: list_all_iff)
    then have "to_flat (pre @ post) = flatten_loop (pre @ post) ''''"
      using flatten_keys_distinct(1)[of "JDict (pre @ post)" "''''"]
      by (simp add: to_flat_def py_dict_distinct)
    moreover from flat_key_absent[OF ok, of "''''"]
    have "k \<notin> fst ` set (flatten_loop (pre @ post) '''')" by (simp add: new_key_def)
    ultimately show ?thesis by simp
  qed
  show ?thesis
    using absent flatten_scalars(2)[of kvs prefix]
    by (simp add: to_flat_def flatten_loop_drop_empty)
qed

theorem empty_container_contributes_no_pair_witness:
  "keys_ok (JDict ([(''id'', JStr ''g1'')] @ (''tags'', JList []) # [(''n'', JInt 3)]))
   \<and> ''tags'' \<notin> fst ` set (to_flat ([(''id'', JStr ''g1'')] @ (''tags'', JList []) # [(''n'', JInt 3)]))
   \<and> to_flat ([(''id'', JStr ''g1'')] @ (''tags'', JList []) # [(''n'', JInt 3)])
       = [(''id'', JStr ''g1''), (''n'', JInt 3)]
   \<and> list_all (\<lambda>kv. \<not> is_list (snd kv) \<and> \<not> is_dict (snd kv))
         (flatten_loop [(''a'', JList [JDict []]), (''b'', JNull)] ''p'')"
proof -
  have ok: "keys_ok (JDict ([(''id'', JStr ''g1'')] @ (''tags'', JList []) # [(''n'', JInt 3)]))"
    by simp
  have row: "to_flat ([(''id'', JStr ''g1'')] @ [(''n'', JInt 3)]) = [(''id'', JStr ''g1''), (''n'', JInt 3)]"
    by code_simp
  from empty_container_contributes_no_pair[of "[(''id'', JStr ''g1'')]" "''tags''" "[(''n'', JInt 3)]"
      "''p''" "[(''a'', JList [JDict []]), (''b'', JNull)]" "JList []"] ok row
  show ?thesis by (simp add: list_all_iff)
qed

theorem empty_container_key_counterexample:
  "to_flat [(''a.b'', JList []), (''a'', JDict [(''b'', JInt 1)])] = [(''a.b'', JInt 1)]
   \<and> ''a.b'' \<in> fst ` set (to_flat [(''a.b'', JList []), (''a'', JDict [(''b'', JInt 1)])])"
  by (simp add: to_flat_def py_dict_def new_key_def)

text \<open>
  C6 (as amended): for a record none of whose top-level keys is the empty string,
  flattening is the depth-first, left-to-right traversal of the specification: a sequence
  is read as the mapping from the stringified index to the element, the flat key of a
  pair is the key at the top level and \<open>prefix + "." + key\<close> below it, a scalar is passed
  through unchanged and the pairs come out in the order of the traversal. The record
  \<open>{"a": 1, "b": [10, 20], "c": 2}\<close> gives the keys \<open>a\<close>, \<open>b.0\<close>, \<open>b.1\<close>, \<open>c\<close> in this order.
\<close>

theorem flatten_is_spec_traversal:
  "('''' \<notin> fst ` set g \<longrightarrow> flatten (JDict g) '''' = flatten_spec True '''' g)
   \<and> map fst (flatten (JDict [(''a'', JInt 1), (''b'', JList [JInt 10, JInt 20]), (''c'', JInt 2)]) '''')
       = [''a'', ''b.0'', ''b.1'', ''c'']
   \<and> map fst (to_flat [(''a'', JInt 1), (''b'', JList [JInt 10, JInt 20]), (''c'', JInt 2)])
       = [''a'', ''b.0'', ''b.1'', ''c'']"
proof -
  have "map fst (flatten (JDict [(''a'', JInt 1), (''b'', JList [JInt 10, JInt 20]), (''c'', JInt 2)]) '''')
       = [''a'', ''b.0'', ''b.1'', ''c'']"
    by code_simp
  moreover have "map fst (to_flat [(''a'', JInt 1), (''b'', JList [JInt 10, JInt 20]), (''c'', JInt 2)])
       = [''a'', ''b.0'', ''b.1'', ''c'']"
    by code_simp
  ultimately show ?thesis using flatten_refines_top[of g] by simp
qed

theorem flatten_is_spec_traversal_witness:
  "'''' \<notin> fst ` set [(''a'', JInt 1), (''b'', JList [JInt 10, JInt 20]), (''c'', JInt 2)]
   \<and> flatten (JDict [(''a'', JInt 1), (''b'', JList [JInt 10, JInt 20]), (''c'', JInt 2)]) ''''
       = flatten_spec True '''' [(''a'', JInt 1), (''b'', JList [JInt 10, JInt 20]), (''c'', JInt 2)]
   \<and> flatten_spec True '''' [(''a'', JInt 1), (''b'', JList [JInt 10, JInt 20]), (''c'', JInt 2)]
       = [(''a'', JInt 1), (''b.0'', JInt 10), (''b.1'', JInt 20), (''c'', JInt 2)]"
proof -
  have e: "'''' \<notin> fst ` set [(''a'', JInt 1), (''b'', JList [JInt 10, JInt 20]), (''c'', JInt 2)]"
    by simp
  have v: "flatten_spec True '''' [(''a'', JInt 1), (''b'', JList [JInt 10, JInt 20]), (''c'', JInt 2)]
       = [(''a'', JInt 1), (''b.0'', JInt 10), (''b.1'', JInt 20), (''c'', JInt 2)]"
    by code_simp
  from flatten_is_spec_traversal[of "[(''a'', JInt 1), (''b'', JList [JInt 10, JInt 20]), (''c'', JInt 2)]"] e v
  show ?thesis by blast
qed

theorem flatten_empty_key_counterexample:
  "flatten (JDict [('''', JDict [(''a'', JInt 1)])]) '''' = [(''a'', JInt 1)]
   \<and> flatten_spec True '''' [('''', JDict [(''a'', JInt 1)])] = [(''.a'', JInt 1)]"
  by (simp add: new_key_def flat_key_spec_def)

text \<open>
  C7 (as amended): for every record in which, at every level, the keys of a mapping are
  distinct, non-empty and free of dots, the flat keys produced by flattening are distinct,
  and wrapping the output pairs as an ordered mapping loses no pair.
\<close>

theorem flat_keys_distinct:
  assumes "keys_ok (JDict g)"
  shows "distinct (map fst (flatten (JDict g) '''')) \<and> to_flat g = flatten (JDict g) ''''"
proof -
  from assms flatten_keys_distinct(1)[of "JDict g" "''''"]
  have d: "distinct (map fst (flatten (JDict g) ''''))" by blast
  then show ?thesis by (simp only: to_flat_def py_dict_distinct[OF d] simp_thms)
qed

theorem flat_keys_distinct_witness:
  "keys_ok (JDict [(''id'', JStr ''g1''), (''org'', JList [JDict [(''name'', JStr ''x'')], JDict [(''name'', JStr ''y'')]])])
   \<and> distinct (map fst (flatten (JDict [(''id'', JStr ''g1''), (''org'', JList [JDict [(''name'', JStr ''x'')], JDict [(''name'', JStr ''y'')]])]) ''''))
   \<and> to_flat [(''id'', JStr ''g1''), (''org'', JList [JDict [(''name'', JStr ''x'')], JDict [(''name'', JStr ''y'')]])]
       = [(''id'', JStr ''g1''), (''org.0.name'', JStr ''x''), (''org.1.name'', JStr ''y'')]"
proof -
  have ok: "keys_ok (JDict [(''id'', JStr ''g1''), (''org'', JList [JDict [(''name'', JStr ''x'')], JDict [(''name'', JStr ''y'')]])])"
    by simp
  have v: "flatten (JDict [(''id'', JStr ''g1''), (''org'', JList [JDict [(''name'', JStr ''x'')], JDict [(''name'', JStr ''y'')]])]) ''''
       = [(''id'', JStr ''g1''), (''org.0.name'', JStr ''x''), (''org.1.name'', JStr ''y'')]"
    by code_simp
  from flat_keys_distinct[OF ok] ok v show ?thesis by simp
qed

theorem flat_keys_duplicate_counterexample:
  "\<not> distinct (map fst (flatten (JDict [(''a.b'', JInt 1), (''a'', JDict [(''b'', JInt 2)])]) ''''))
   \<and> flatten (JDict [(''a.b'', JInt 1), (''a'', JDict [(''b'', JInt 2)])]) ''''
       = [(''a.b'', JInt 1), (''a.b'', JInt 2)]
   \<and> to_flat [(''a.b'', JInt 1), (''a'', JDict [(''b'', JInt 2)])] = [(''a.b'', JInt 2)]"
  by (simp add: to_flat_def py_dict_def new_key_def)

section \<open>Properties of the flat export\<close>

lemma add_fieldnames_first_seen:
  "add_fieldnames fs acc = acc @ filter (\<lambda>x. x \<notin> set acc) (first_seen fs)"
proof (induction fs arbitrary: acc)
  case Nil
  then show ?case by simp
next
  case (Cons f fs)
  show ?case
  proof (cases "f \<in> set acc")
    case True
    then have "filter (\<lambda>x. x \<notin> set acc) (filter (\<lambda>y. y \<noteq> f) (first_seen fs))
        = filter (\<lambda>x. x \<notin> set acc) (first_seen fs)"
      by (auto intro: filter_cong)
    with True Cons.IH[of acc] show ?thesis by simp
  next
    case False
    have "filter (\<lambda>x. x \<notin> set (acc @ [f])) (first_seen fs)
        = filter (\<lambda>x. x \<notin> set acc) (filter (\<lambda>y. y \<noteq> f) (first_seen fs))"
      by (auto intro: filter_cong)
    with False Cons.IH[of "acc @ [f]"] show ?thesis by simp
  qed
qed

lemma add_fieldnames_append:
  "add_fieldnames (a @ b) acc = add_fieldnames b (add_fieldnames a acc)"
  by (induction a arbitrary: acc) simp_all

lemma set_first_seen: "set (first_seen xs) = set xs"
  by (induction xs) auto

lemma distinct_first_seen: "distinct (first_seen xs)"
  by (induction xs) (simp_all add: set_first_seen)

lemma to_flatfile_loop_grants:
  assumes "\<forall>g \<in> set gs. ''self'' \<notin> fst ` set g \<and> ''to_flat'' \<notin> fst ` set g"
  shows "to_flatfile_loop (map JDict gs) rows fieldnames =
     Inr (rows @ map to_flat gs,
          add_fieldnames (concat (map (\<lambda>g. map fst (to_flat g)) gs)) fieldnames)"
  using assms
proof (induction gs arbitrary: rows fieldnames)
  case Nil
  then show ?case by simp
next
  case (Cons g gs)
  then show ?case by (simp add: add_fieldnames_append call_to_flat_def)
qed

lemma to_flatfile_loop_raises:
  assumes "\<exists>g \<in> set gs. ''self'' \<in> fst ` set g \<or> ''to_flat'' \<in> fst ` set g"
  shows "to_flatfile_loop (map JDict gs) rows fieldnames = Inl TypeError"
  using assms
proof (induction gs arbitrary: rows fieldnames)
  case Nil
  then show ?case by simp
next
  case (Cons g gs)
  show ?case
  proof (cases "''self'' \<in> fst ` set g \<or> ''to_flat'' \<in> fst ` set g")
    case True
    then show ?thesis by (auto simp: call_to_flat_def)
  next
    case False
    with Cons.prems have "\<exists>g \<in> set gs. ''self'' \<in> fst ` set g \<or> ''to_flat'' \<in> fst ` set g"
      by auto
    from Cons.IH[OF this] False show ?thesis by (simp add: call_to_flat_def)
  qed
qed

text \<open>
  C8 (as amended): for a dataset whose \<open>grants\<close> entry is a list of records none of which
  has a key \<^verbatim>\<open>self\<close> or \<^verbatim>\<open>to_flat\<close>, the flat export returns the flat rows of the records in
  their order, together with the list of field names that is the union of the flat keys
  of all records in first-seen order (every key once); a row that lacks a field of the
  list has no value for it. Two records of which only the first has the field \<open>amount\<close>
  give the field list \<open>id\<close>, \<open>amount\<close>, \<open>title\<close>, and the second row has no value for
  \<open>amount\<close>. The keys of a record are stored as attributes of its \<^verbatim>\<open>Grant\<close>: when a record
  has a key \<^verbatim>\<open>self\<close> or \<^verbatim>\<open>to_flat\<close> the export raises \<^verbatim>\<open>TypeError\<close> and returns nothing.
\<close>

theorem to_flatfile_rows_and_fields:
  assumes "dict_get d root_id = Some (JList (map JDict gs))"
  shows "((\<forall>g \<in> set gs. ''self'' \<notin> fst ` set g \<and> ''to_flat'' \<notin> fst ` set g)
          \<longrightarrow> to_flatfile (JDict d) =
                Inr (map to_flat gs, first_seen (concat (map (\<lambda>g. map fst (to_flat g)) gs))))
     \<and> ((\<exists>g \<in> set gs. ''self'' \<in> fst ` set g \<or> ''to_flat'' \<in> fst ` set g)
          \<longrightarrow> to_flatfile (JDict d) = Inl TypeError)
     \<and> set (first_seen (concat (map (\<lambda>g. map fst (to_flat g)) gs)))
           = (\<Union>g \<in> set gs. fst ` set (to_flat g))
     \<and> distinct (first_seen (concat (map (\<lambda>g. map fst (to_flat g)) gs)))
     \<and> (\<forall>g \<in> set gs. \<forall>f. f \<notin> fst ` set (to_flat g) \<longrightarrow> dict_get (to_flat g) f = None)"
proof -
  have good: "to_flatfile (JDict d) =
           Inr (map to_flat gs, first_seen (concat (map (\<lambda>g. map fst (to_flat g)) gs)))"
    if ok: "\<forall>g \<in> set gs. ''self'' \<notin> fst ` set g \<and> ''to_flat'' \<notin> fst ` set g"
    using assms to_flatfile_loop_grants[OF ok, of "[]" "[]"]
    by (simp add: to_flatfile_def add_fieldnames_first_seen)
  have bad: "to_flatfile (JDict d) = Inl TypeError"
    if sh: "\<exists>g \<in> set gs. ''self'' \<in> fst ` set g \<or> ''to_flat'' \<in> fst ` set g"
    using assms to_flatfile_loop_raises[OF sh, of "[]" "[]"]
    by (simp add: to_flatfile_def)
  have union: "set (first_seen (concat (map (\<lambda>g. map fst (to_flat g)) gs)))
           = (\<Union>g \<in> set gs. fst ` set (to_flat g))"
    by (simp add: set_first_seen)
  have miss: "\<forall>g \<in> set gs. \<forall>f. f \<notin> fst ` set (to_flat g) \<longrightarrow> dict_get (to_flat g) f = None"
    by (simp add: dict_get_def map_of_eq_None_iff)
  from good bad union miss distinct_first_seen[of "concat (map (\<lambda>g. map fst (to_flat g)) gs)"]
  show ?thesis by blast
qed

theorem to_flatfile_rows_and_fields_witness:
  "dict_get [(''grants'', JList (map JDict
       [[(''id'', JStr ''a''), (''amount'', JInt 5)], [(''id'', JStr ''b''), (''title'', JStr ''t'')]]))]
     root_id
     = Some (JList (map JDict
       [[(''id'', JStr ''a''), (''amount'', JInt 5)], [(''id'', JStr ''b''), (''title'', JStr ''t'')]]))
   \<and> to_flatfile (JDict [(''grants'', JList (map JDict
       [[(''id'', JStr ''a''), (''amount'', JInt 5)], [(''id'', JStr ''b''), (''title'', JStr ''t'')]]))])
     = Inr ([[(''id'', JStr ''a''), (''amount'', JInt 5)], [(''id'', JStr ''b''), (''title'', JStr ''t'')]],
            [''id'', ''amount'', ''title''])
   \<and> dict_get (to_flat [(''id'', JStr ''b''), (''title'', JStr ''t'')]) ''amount'' = None
   \<and> to_flatfile (JDict [(''grants'', JList (map JDict
       [[(''id'', JStr ''a'')], [(''id'', JStr ''b''), (''self'', JStr ''me'')]]))])
     = Inl TypeError"
proof -
  let ?gs = "[[(''id'', JStr ''a''), (''amount'', JInt 5)], [(''id'', JStr ''b''), (''title'', JStr ''t'')]]"
  let ?bs = "[[(''id'', JStr ''a'')], [(''id'', JStr ''b''), (''self'', JStr ''me'')]]"
  have a: "dict_get [(''grants'', JList (map JDict ?gs))] root_id = Some (JList (map JDict ?gs))"
    by (simp add: dict_get_def root_id_def)
  have a': "dict_get [(''grants'', JList (map JDict ?bs))] root_id = Some (JList (map JDict ?bs))"
    by (simp add: dict_get_def root_id_def)
  have b: "\<forall>g \<in> set ?gs. ''self'' \<notin> fst ` set g \<and> ''to_flat'' \<notin> fst ` set g" by simp
  have b': "\<exists>g \<in> set ?bs. ''self'' \<in> fst ` set g \<or> ''to_flat'' \<in> fst ` set g" by simp
  have rows: "map to_flat ?gs = ?gs" by code_simp
  have names: "first_seen (concat (map (\<lambda>g. map fst (to_flat g)) ?gs)) = [''id'', ''amount'', ''title'']"
    by code_simp
  have miss: "''amount'' \<notin> fst ` set (to_flat [(''id'', JStr ''b''), (''title'', JStr ''t'')])"
    by code_simp
  from to_flatfile_rows_and_fields[OF a] b
  have good: "to_flatfile (JDict [(''grants'', JList (map JDict ?gs))])
      = Inr (map to_flat ?gs, first_seen (concat (map (\<lambda>g. map fst (to_flat g)) ?gs)))"
    by blast
  from to_flatfile_rows_and_fields[OF a] miss
  have none: "dict_get (to_flat [(''id'', JStr ''b''), (''title'', JStr ''t'')]) ''amount'' = None"
    by simp
  from to_flatfile_rows_and_fields[OF a'] b'
  have bad: "to_flatfile (JDict [(''grants'', JList (map JDict ?bs))]) = Inl TypeError"
    by blast
  from a good none bad show ?thesis unfolding rows names by (simp del: list.map)
qed

theorem to_flatfile_shadowed_method_counterexample:
  "to_flatfile (JDict [(''grants'', JList [JDict [(''id'', JStr ''g1''), (''to_flat'', JInt 1)]])])
     = Inl TypeError"
  by code_simp

section \<open>Properties of the validator's filter\<close>

lemma get_errors_filter:
  assumes "\<forall>e \<in> set es. subscriptable e"
  shows "get_errors es None = Inr (filter (\<lambda>e. \<not> suppressed e) es)"
  using assms
proof (induction es)
  case Nil
  then show ?case by simp
next
  case (Cons e es)
  then have IH: "get_errors es None = Inr (filter (\<lambda>e. \<not> suppressed e) es)" by simp
  from Cons.prems have sub: "subscriptable e" by simp
  show ?case
  proof (cases "validator e = ''oneOf''")
    case True
    with sub obtain first where f: "getitem0 (validator_value e) = Inr first"
      by (cases "getitem0 (validator_value e)") (auto simp: subscriptable_def)
    with True IH show ?thesis by (simp add: suppressed_def)
  next
    case False
    with IH show ?thesis by (simp add: suppressed_def)
  qed
qed

lemma suppressed_subscriptable: "suppressed e \<Longrightarrow> subscriptable e"
  by (simp add: suppressed_def subscriptable_def)

text \<open>
  C3: when the engine reports the errors \<open>es\<close> for a document (each \<^verbatim>\<open>oneOf\<close> error
  carrying the non-empty list of alternatives of its schema, so that \<^verbatim>\<open>validator_value[0]\<close>
  is defined), the validator yields exactly the errors of \<open>es\<close>, in order, except those
  whose keyword is \<^verbatim>\<open>oneOf\<close> and whose first alternative is exactly
  \<^verbatim>\<open>{"format": "date-time"}\<close>. A document whose only errors are of that kind yields no
  error; a document with any other error yields at least one.
\<close>

theorem get_errors_suppresses_date_time:
  assumes "\<forall>e \<in> set es. subscriptable e"
  shows "get_errors es None = Inr (filter (\<lambda>e. \<not> suppressed e) es)
     \<and> ((\<forall>e \<in> set es. suppressed e) \<longrightarrow> get_errors es None = Inr [])
     \<and> ((\<exists>e \<in> set es. \<not> suppressed e) \<longrightarrow> (\<exists>y ys. get_errors es None = Inr (y # ys)))
     \<and> (\<forall>e. suppressed e \<longleftrightarrow>
           validator e = ''oneOf'' \<and> (\<exists>alts. validator_value e = JList (date_time_format # alts)))"
proof -
  have eq: "get_errors es None = Inr (filter (\<lambda>e. \<not> suppressed e) es)"
    by (rule get_errors_filter[OF assms])
  have none: "(\<forall>e \<in> set es. suppressed e) \<longrightarrow> get_errors es None = Inr []"
    by (simp add: eq)
  have some: "(\<exists>e \<in> set es. \<not> suppressed e) \<longrightarrow> (\<exists>y ys. get_errors es None = Inr (y # ys))"
  proof
    assume "\<exists>e \<in> set es. \<not> suppressed e"
    then have "filter (\<lambda>e. \<not> suppressed e) es \<noteq> []" by (simp add: filter_empty_conv)
    then obtain y ys where "filter (\<lambda>e. \<not> suppressed e) es = y # ys"
      by (cases "filter (\<lambda>e. \<not> suppressed e) es") auto
    with eq show "\<exists>y ys. get_errors es None = Inr (y # ys)" by simp
  qed
  have char: "suppressed e \<longleftrightarrow>
      validator e = ''oneOf'' \<and> (\<exists>alts. validator_value e = JList (date_time_format # alts))" for e
  proof (cases "validator_value e" rule: getitem0.cases)
    case (5 c cs)
    then show ?thesis by (simp add: suppressed_def date_time_format_def)
  qed (auto simp: suppressed_def)
  from eq none some char show ?thesis by blast
qed

theorem get_errors_suppresses_date_time_witness:
  "list_all subscriptable
     [ValidationError ''oneOf'' (JList [date_time_format, JDict [(''format'', JStr ''date'')]]) ''not a date'',
      ValidationError ''required'' (JList [JStr ''id'']) ''id is required'',
      ValidationError ''oneOf'' (JList [JDict [(''type'', JStr ''string'')]]) ''not a string'']
   \<and> get_errors
     [ValidationError ''oneOf'' (JList [date_time_format, JDict [(''format'', JStr ''date'')]]) ''not a date'',
      ValidationError ''required'' (JList [JStr ''id'']) ''id is required'',
      ValidationError ''oneOf'' (JList [JDict [(''type'', JStr ''string'')]]) ''not a string''] None
     = Inr [ValidationError ''required'' (JList [JStr ''id'']) ''id is required'',
            ValidationError ''oneOf'' (JList [JDict [(''type'', JStr ''string'')]]) ''not a string'']
   \<and> get_errors
     [ValidationError ''oneOf'' (JList [date_time_format, JDict [(''format'', JStr ''date'')]]) ''not a date''] None
     = Inr []"
proof -
  let ?a = "ValidationError ''oneOf'' (JList [date_time_format, JDict [(''format'', JStr ''date'')]]) ''not a date''"
  let ?b = "ValidationError ''required'' (JList [JStr ''id'']) ''id is required''"
  let ?c = "ValidationError ''oneOf'' (JList [JDict [(''type'', JStr ''string'')]]) ''not a string''"
  have s: "\<forall>e \<in> set [?a, ?b, ?c]. subscriptable e" "\<forall>e \<in> set [?a]. subscriptable e"
    by (simp_all add: subscriptable_def)
  have f: "suppressed ?a" "\<not> suppressed ?b" "\<not> suppressed ?c"
    by (simp_all add: suppressed_def date_time_format_def)
  from get_errors_suppresses_date_time[OF s(1)] get_errors_suppresses_date_time[OF s(2)] s f
  show ?thesis by (simp add: list_all_iff)
qed

section \<open>Properties of the rule derivation\<close>

lemma dict_update_append: "dict_update d (a @ b) = dict_update (dict_update d a) b"
  by (simp add: dict_update_def)

lemma dict_update_single: "dict_update d [(k, v)] = dict_set d k v"
  by (simp add: dict_update_def)

lemma dict_update_Nil: "dict_update d [] = d"
  by (simp add: dict_update_def)

lemma dict_update_distinct: "distinct (map fst (d @ ps)) \<Longrightarrow> dict_update d ps = d @ ps"
  by (simp add: dict_update_def foldl_dict_set_distinct)

lemma index_pattern_nonempty: "pk @ index_pattern @ i \<noteq> []"
  by (simp add: index_pattern_def)

lemma index_template_nonempty: "pv @ index_template @ t \<noteq> []"
  by (simp add: index_template_def)

lemma wf_props_ConsD:
  assumes "wf_props ((i, node) # rest)"
  shows "\<exists>p t. node = JDict p \<and> title_of p i = Inr t \<and> wf_props rest
     \<and> (is_array p \<longrightarrow> (\<exists>ps. items_properties p = Inr (JDict ps) \<and> wf_props ps))"
proof -
  from assms obtain p where p: "node = JDict p" by (cases node) auto
  from assms p obtain t where t: "title_of p i = Inr t"
    by (cases "title_of p i") auto
  from assms p have r: "wf_props rest" by simp
  have "\<exists>ps. items_properties p = Inr (JDict ps) \<and> wf_props ps" if "is_array p"
    using assms p that by (auto split: sum.splits json.splits)
  with p t r show ?thesis by blast
qed

lemma top_arrays_named_ConsD:
  assumes "top_arrays_named ((i, JDict p) # rest)"
  shows "top_arrays_named rest" and "is_array p \<Longrightarrow> i \<noteq> [] \<and> title_or_name p i \<noteq> []"
  using assms by (auto simp: top_arrays_named_def)

lemma recurse_names_refines:
  "props = JDict ps
     \<Longrightarrow> first \<longrightarrow> pk = [] \<and> pv = [] \<and> top_arrays_named ps
     \<Longrightarrow> \<not> first \<longrightarrow> pk \<noteq> [] \<and> pv \<noteq> []
     \<Longrightarrow> wf_props ps
     \<Longrightarrow> recurse_names props rn pk pv = Inr (dict_update rn (derive_rules first pk pv ps))"
  "first \<longrightarrow> pk = [] \<and> pv = [] \<and> top_arrays_named kvs
     \<Longrightarrow> \<not> first \<longrightarrow> pk \<noteq> [] \<and> pv \<noteq> []
     \<Longrightarrow> wf_props kvs
     \<Longrightarrow> recurse_names_loop kvs rn pk pv = Inr (dict_update rn (derive_rules first pk pv kvs))"
proof (induction props rn pk pv and kvs rn pk pv arbitrary: first ps and first
    rule: recurse_names_recurse_names_loop.induct)
  case (1 props rn0 prefix_k prefix_v)
  from "1.prems"(1) have e: "ps = props" by simp
  from "1.IH"[of first] "1.prems"(2,3,4) show ?case unfolding e by simp
next
  case (8 rn0 prefix_k prefix_v)
  then show ?case by (simp add: dict_update_Nil)
next
  case (9 i node rest rn pk pv)
  note top = "9.prems"(1) and nest = "9.prems"(2) and wf = "9.prems"(3)
  from wf_props_ConsD[OF wf] obtain p t where p: "node = JDict p" and t: "title_of p i = Inr t"
    and wfr: "wf_props rest"
    and arr: "is_array p \<longrightarrow> (\<exists>ps. items_properties p = Inr (JDict ps) \<and> wf_props ps)"
    by blast
  let ?name_k = "if pk \<noteq> [] then pk @ index_pattern @ i else i"
  let ?name_v = "if pv \<noteq> [] then pv @ index_template @ t else t"
  have tn: "title_or_name p i = t" using t by (simp add: title_or_name_def)
  have name_k: "?name_k = (if first then i else pk @ index_pattern @ i)"
    using top nest by auto
  have name_v: "?name_v = (if first then t else pv @ index_template @ t)"
    using top nest by auto
  have top_rest: "first \<longrightarrow> pk = [] \<and> pv = [] \<and> top_arrays_named rest"
    using top p top_arrays_named_ConsD(1)[of i p rest] by auto
  show ?case
  proof (cases "is_array p")
    case True
    then have ty: "dict_get p ''type'' = Some (JStr ''array'')" by (simp add: is_array_def)
    from arr True obtain ps where ip: "items_properties p = Inr (JDict ps)"
      and wfps: "wf_props ps" by blast
    have sp: "sub_properties p = ps" using ip by (simp add: sub_properties_def)
    have ne: "?name_k \<noteq> [] \<and> ?name_v \<noteq> []"
    proof (cases first)
      case True
      with top p \<open>is_array p\<close> top_arrays_named_ConsD(2)[of i p rest] tn
      show ?thesis by auto
    next
      case False
      with nest show ?thesis by (simp add: index_pattern_nonempty index_template_nonempty)
    qed
    have a1: "False \<longrightarrow> ?name_k = [] \<and> ?name_v = [] \<and> top_arrays_named ps" by simp
    have a2: "\<not> False \<longrightarrow> ?name_k \<noteq> [] \<and> ?name_v \<noteq> []" using ne by simp
    have inner: "recurse_names (JDict ps) rn ?name_k ?name_v
        = Inr (dict_update rn (derive_rules False ?name_k ?name_v ps))"
      by (rule "9.IH"(1)[OF refl p t refl ty ip refl a1 a2 wfps])
    have outer: "recurse_names_loop rest (dict_update rn (derive_rules False ?name_k ?name_v ps)) pk pv
        = Inr (dict_update (dict_update rn (derive_rules False ?name_k ?name_v ps))
                 (derive_rules first pk pv rest))"
      by (rule "9.IH"(2)[OF refl p t refl ty ip inner top_rest nest wfr])
    have lhs: "recurse_names_loop ((i, node) # rest) rn pk pv
        = recurse_names_loop rest (dict_update rn (derive_rules False ?name_k ?name_v ps)) pk pv"
      using p t ty ip inner by (simp add: Let_def)
    have rhs: "derive_rules first pk pv ((i, node) # rest)
        = derive_rules False ?name_k ?name_v ps @ derive_rules first pk pv rest"
      using p True sp tn name_k name_v by (simp add: Let_def)
    show ?thesis unfolding lhs rhs dict_update_append by (rule outer)
  next
    case False
    then have ty: "dict_get p ''type'' \<noteq> Some (JStr ''array'')" by (simp add: is_array_def)
    have outer: "recurse_names_loop rest (dict_set rn ?name_k ?name_v) pk pv
        = Inr (dict_update (dict_set rn ?name_k ?name_v) (derive_rules first pk pv rest))"
      by (rule "9.IH"(3)[OF refl p t refl ty top_rest nest wfr])
    have lhs: "recurse_names_loop ((i, node) # rest) rn pk pv
        = recurse_names_loop rest (dict_set rn ?name_k ?name_v) pk pv"
      using p t ty by (simp add: Let_def)
    have rhs: "derive_rules first pk pv ((i, node) # rest)
        = [(?name_k, ?name_v)] @ derive_rules first pk pv rest"
      using p False tn name_k name_v by (simp add: Let_def)
    show ?thesis unfolding lhs rhs dict_update_append dict_update_single by (rule outer)
  qed
qed simp_all

lemma recurse_names_refines_by_prefix:
  "props = JDict ps \<Longrightarrow> wf_props ps
     \<Longrightarrow> recurse_names props rn pk pv = Inr (dict_update rn (derive_rules_by_prefix pk pv ps))"
  "wf_props kvs
     \<Longrightarrow> recurse_names_loop kvs rn pk pv = Inr (dict_update rn (derive_rules_by_prefix pk pv kvs))"
proof (induction props rn pk pv and kvs rn pk pv arbitrary: ps
    rule: recurse_names_recurse_names_loop.induct)
  case (1 props rn0 prefix_k prefix_v)
  from "1.prems"(1) have e: "ps = props" by simp
  from "1.IH" "1.prems"(2) show ?case unfolding e by simp
next
  case (8 rn0 prefix_k prefix_v)
  then show ?case by (simp add: dict_update_Nil)
next
  case (9 i node rest rn pk pv)
  note wf = "9.prems"(1)
  from wf_props_ConsD[OF wf] obtain p t where p: "node = JDict p" and t: "title_of p i = Inr t"
    and wfr: "wf_props rest"
    and arr: "is_array p \<longrightarrow> (\<exists>ps. items_properties p = Inr (JDict ps) \<and> wf_props ps)"
    by blast
  let ?name_k = "if pk \<noteq> [] then pk @ index_pattern @ i else i"
  let ?name_v = "if pv \<noteq> [] then pv @ index_template @ t else t"
  have tn: "title_or_name p i = t" using t by (simp add: title_or_name_def)
  have name_k: "(if pk = [] then i else pk @ index_pattern @ i) = ?name_k" by simp
  have name_v: "(if pv = [] then t else pv @ index_template @ t) = ?name_v" by simp
  show ?case
  proof (cases "is_array p")
    case True
    then have ty: "dict_get p ''type'' = Some (JStr ''array'')" by (simp add: is_array_def)
    from arr True obtain ps where ip: "items_properties p = Inr (JDict ps)"
      and wfps: "wf_props ps" by blast
    have sp: "sub_properties p = ps" using ip by (simp add: sub_properties_def)
    have inner: "recurse_names (JDict ps) rn ?name_k ?name_v
        = Inr (dict_update rn (derive_rules_by_prefix ?name_k ?name_v ps))"
      by (rule "9.IH"(1)[OF refl p t refl ty ip refl wfps])
    have outer: "recurse_names_loop rest
          (dict_update rn (derive_rules_by_prefix ?name_k ?name_v ps)) pk pv
        = Inr (dict_update (dict_update rn (derive_rules_by_prefix ?name_k ?name_v ps))
                 (derive_rules_by_prefix pk pv rest))"
      by (rule "9.IH"(2)[OF refl p t refl ty ip inner wfr])
    have lhs: "recurse_names_loop ((i, node) # rest) rn pk pv
        = recurse_names_loop rest
            (dict_update rn (derive_rules_by_prefix ?name_k ?name_v ps)) pk pv"
      using p t ty ip inner by (simp add: Let_def)
    have rhs: "derive_rules_by_prefix pk pv ((i, node) # rest)
        = derive_rules_by_prefix ?name_k ?name_v ps @ derive_rules_by_prefix pk pv rest"
      using p True sp tn by (simp add: Let_def name_k name_v)
    show ?thesis unfolding lhs rhs dict_update_append by (rule outer)
  next
    case False
    then have ty: "dict_get p ''type'' \<noteq> Some (JStr ''array'')" by (simp add: is_array_def)
    have outer: "recurse_names_loop rest (dict_set rn ?name_k ?name_v) pk pv
        = Inr (dict_update (dict_set rn ?name_k ?name_v) (derive_rules_by_prefix pk pv rest))"
      by (rule "9.IH"(3)[OF refl p t refl ty wfr])
    have lhs: "recurse_names_loop ((i, node) # rest) rn pk pv
        = recurse_names_loop rest (dict_set rn ?name_k ?name_v) pk pv"
      using p t ty by (simp add: Let_def)
    have rhs: "derive_rules_by_prefix pk pv ((i, node) # rest)
        = [(?name_k, ?name_v)] @ derive_rules_by_prefix pk pv rest"
      using p False tn by (simp add: Let_def name_k name_v)
    show ?thesis unfolding lhs rhs dict_update_append dict_update_single by (rule outer)
  qed
qed simp_all

text \<open>
  C4 (as amended): for every schema whose property sets are well formed (\<open>wf_props\<close>:
  the program reads them without raising, and every title is a string), rule derivation
  traverses \<^verbatim>\<open>properties.<root_id>.items.properties\<close> depth-first
  in declared order and stores, for each property that is not an array, a pair of key
  pattern and value template; an array property is entered through \<^verbatim>\<open>items.properties\<close>
  with its pair as the new prefixes. The key pattern is the name when the parent's
  pattern is the empty string, and otherwise the parent's pattern, \<^verbatim>\<open>.([0-9]+).\<close> and the
  name; the value template is the title (or the name) when the parent's template is the
  empty string, and otherwise the parent's template, \<^verbatim>\<open>:\1:\<close> and the title (or the name).
  The pairs are stored in an ordered dictionary in that order, so the result is their
  list when the patterns are distinct. When no array property of the first level has an
  empty name or an empty title, this is the rule of the specification: name and title at
  the first level, the compound pattern and template at every deeper level. The minimal
  schema of the specification gives \<open>id\<close> with \<open>Identifier\<close> and
  \<^verbatim>\<open>recipientOrganization.([0-9]+).name\<close> with \<^verbatim>\<open>recipientOrganization:\1:Org Name\<close>.
\<close>

theorem recurse_names_derives_rules:
  assumes "wf_props props"
  shows "recurse_names (JDict props) rn '''' ''''
           = Inr (dict_update rn (derive_rules_by_prefix '''' '''' props))
     \<and> (distinct (map fst (rn @ derive_rules_by_prefix '''' '''' props))
          \<longrightarrow> recurse_names (JDict props) rn '''' ''''
                = Inr (rn @ derive_rules_by_prefix '''' '''' props))
     \<and> (top_arrays_named props
          \<longrightarrow> recurse_names (JDict props) rn '''' ''''
                = Inr (dict_update rn (derive_rules True '''' '''' props)))
     \<and> recurse_names
          (JDict [(''id'', JDict [(''title'', JStr ''Identifier'')]),
                  (''recipientOrganization'',
                   JDict [(''type'', JStr ''array''),
                          (''items'', JDict [(''properties'',
                             JDict [(''name'', JDict [(''title'', JStr ''Org Name'')])])])])])
          [] '''' ''''
         = Inr [(''id'', ''Identifier''),
                (''recipientOrganization.([0-9]+).name'',
                 ''recipientOrganization:'' @ [CHR 0x5C] @ ''1:Org Name'')]"
proof -
  have main: "recurse_names (JDict props) rn '''' ''''
           = Inr (dict_update rn (derive_rules_by_prefix '''' '''' props))"
    by (rule recurse_names_refines_by_prefix(1)[OF refl assms])
  have level: "recurse_names (JDict props) rn '''' ''''
           = Inr (dict_update rn (derive_rules True '''' '''' props))"
    if "top_arrays_named props"
    using recurse_names_refines(1)[OF refl, of True "''''" "''''" props rn] assms that by simp
  have ex: "recurse_names
          (JDict [(''id'', JDict [(''title'', JStr ''Identifier'')]),
                  (''recipientOrganization'',
                   JDict [(''type'', JStr ''array''),
                          (''items'', JDict [(''properties'',
                             JDict [(''name'', JDict [(''title'', JStr ''Org Name'')])])])])])
          [] '''' ''''
         = Inr [(''id'', ''Identifier''),
                (''recipientOrganization.([0-9]+).name'',
                 ''recipientOrganization:'' @ [CHR 0x5C] @ ''1:Org Name'')]"
    by code_simp
  from main level ex show ?thesis by (simp add: dict_update_distinct)
qed

theorem recurse_names_derives_rules_witness:
  "wf_props [(''id'', JDict [(''title'', JStr ''Identifier'')]),
             (''a'', JDict [(''type'', JStr ''array''), (''title'', JStr ''''),
                (''items'', JDict [(''properties'',
                   JDict [(''x'', JDict [(''title'', JStr ''X'')]),
                          (''b'', JDict [(''type'', JStr ''array''),
                             (''items'', JDict [(''properties'',
                                JDict [(''y'', JDict [])])])])])])]),
             ('''', JDict [(''type'', JStr ''array''), (''title'', JStr ''Orgs''),
                (''items'', JDict [(''properties'',
                   JDict [(''name'', JDict [(''title'', JStr ''Org Name'')])])])])]
   \<and> recurse_names
        (JDict [(''id'', JDict [(''title'', JStr ''Identifier'')]),
             (''a'', JDict [(''type'', JStr ''array''), (''title'', JStr ''''),
                (''items'', JDict [(''properties'',
                   JDict [(''x'', JDict [(''title'', JStr ''X'')]),
                          (''b'', JDict [(''type'', JStr ''array''),
                             (''items'', JDict [(''properties'',
                                JDict [(''y'', JDict [])])])])])])]),
             ('''', JDict [(''type'', JStr ''array''), (''title'', JStr ''Orgs''),
                (''items'', JDict [(''properties'',
                   JDict [(''name'', JDict [(''title'', JStr ''Org Name'')])])])])])
        [(''old'', ''Old'')] '''' ''''
       = Inr [(''old'', ''Old''), (''id'', ''Identifier''),
              (''a.([0-9]+).x'', ''X''),
              (''a.([0-9]+).b.([0-9]+).y'', ''b:'' @ [CHR 0x5C] @ ''1:y''),
              (''name'', ''Orgs:'' @ [CHR 0x5C] @ ''1:Org Name'')]
   \<and> top_arrays_named [(''id'', JDict [(''title'', JStr ''Identifier'')]),
             (''recipientOrganization'',
              JDict [(''type'', JStr ''array''),
                     (''items'', JDict [(''properties'',
                        JDict [(''name'', JDict [(''title'', JStr ''Org Name'')])])])])]
   \<and> recurse_names
        (JDict [(''id'', JDict [(''title'', JStr ''Identifier'')]),
             (''recipientOrganization'',
              JDict [(''type'', JStr ''array''),
                     (''items'', JDict [(''properties'',
                        JDict [(''name'', JDict [(''title'', JStr ''Org Name'')])])])])])
        [(''old'', ''Old'')] '''' ''''
       = Inr [(''old'', ''Old''), (''id'', ''Identifier''),
              (''recipientOrganization.([0-9]+).name'',
               ''recipientOrganization:'' @ [CHR 0x5C] @ ''1:Org Name'')]"
proof -
  let ?props = "[(''id'', JDict [(''title'', JStr ''Identifier'')]),
             (''a'', JDict [(''type'', JStr ''array''), (''title'', JStr ''''),
                (''items'', JDict [(''properties'',
                   JDict [(''x'', JDict [(''title'', JStr ''X'')]),
                          (''b'', JDict [(''type'', JStr ''array''),
                             (''items'', JDict [(''properties'',
                                JDict [(''y'', JDict [])])])])])])]),
             ('''', JDict [(''type'', JStr ''array''), (''title'', JStr ''Orgs''),
                (''items'', JDict [(''properties'',
                   JDict [(''name'', JDict [(''title'', JStr ''Org Name'')])])])])]"
  let ?minimal = "[(''id'', JDict [(''title'', JStr ''Identifier'')]),
             (''recipientOrganization'',
              JDict [(''type'', JStr ''array''),
                     (''items'', JDict [(''properties'',
                        JDict [(''name'', JDict [(''title'', JStr ''Org Name'')])])])])]"
  have wf: "wf_props ?props" by code_simp
  have wfm: "wf_props ?minimal" by code_simp
  have top: "top_arrays_named ?minimal" by code_simp
  have rules: "dict_update [(''old'', ''Old'')] (derive_rules_by_prefix '''' '''' ?props)
       = [(''old'', ''Old''), (''id'', ''Identifier''),
              (''a.([0-9]+).x'', ''X''),
              (''a.([0-9]+).b.([0-9]+).y'', ''b:'' @ [CHR 0x5C] @ ''1:y''),
              (''name'', ''Orgs:'' @ [CHR 0x5C] @ ''1:Org Name'')]"
    by code_simp
  have level: "dict_update [(''old'', ''Old'')] (derive_rules True '''' '''' ?minimal)
       = [(''old'', ''Old''), (''id'', ''Identifier''),
              (''recipientOrganization.([0-9]+).name'',
               ''recipientOrganization:'' @ [CHR 0x5C] @ ''1:Org Name'')]"
    by code_simp
  from recurse_names_derives_rules[OF wf, of "[(''old'', ''Old'')]"]
  have general: "recurse_names (JDict ?props) [(''old'', ''Old'')] '''' ''''
      = Inr (dict_update [(''old'', ''Old'')] (derive_rules_by_prefix '''' '''' ?props))"
    by blast
  from recurse_names_derives_rules[OF wfm, of "[(''old'', ''Old'')]"] top
  have spec: "recurse_names (JDict ?minimal) [(''old'', ''Old'')] '''' ''''
      = Inr (dict_update [(''old'', ''Old'')] (derive_rules True '''' '''' ?minimal))"
    by blast
  from wf top show ?thesis unfolding general spec rules level by simp
qed

theorem recurse_names_empty_title_counterexample:
  "recurse_names
     (JDict [(''a'', JDict [(''type'', JStr ''array''), (''title'', JStr ''''),
                            (''items'', JDict [(''properties'',
                               JDict [(''x'', JDict [(''title'', JStr ''X'')])])])])])
     [] '''' ''''
     = Inr [(''a.([0-9]+).x'', ''X'')]
   \<and> derive_rules True '''' ''''
       [(''a'', JDict [(''type'', JStr ''array''), (''title'', JStr ''''),
                       (''items'', JDict [(''properties'',
                          JDict [(''x'', JDict [(''title'', JStr ''X'')])])])])]
     = [(''a.([0-9]+).x'', '':'' @ [CHR 0x5C] @ ''1:X'')]"
  by code_simp

section \<open>Properties of the field-name mapping\<close>

lemma dict_set_map_keys:
  "distinct ks \<Longrightarrow> f \<in> set ks
     \<Longrightarrow> dict_set (map (\<lambda>k. (k, g k)) ks) f s = map (\<lambda>k. (k, (g(f := s)) k)) ks"
  by (induction ks) auto

lemma convert_fields_closed:
  assumes "distinct ks" and "set fs \<subseteq> set ks"
    and "\<forall>f \<in> set fs. (\<exists>b. fm old f = Inr b)
                     \<and> (fm old f = Inr True \<longrightarrow> (\<exists>s. sb old new f = Inr s))"
  shows "convert_fields fm sb old new fs (map (\<lambda>k. (k, g k)) ks)
     = Inr (map (\<lambda>k. (k, if k \<in> set fs \<and> fm old k = Inr True
                          then sub_value sb old new k else g k)) ks)"
  using assms(2,3)
proof (induction fs arbitrary: g)
  case Nil
  then show ?case by simp
next
  case (Cons f fs)
  from Cons.prems have f: "f \<in> set ks" and sub: "set fs \<subseteq> set ks"
    and tot: "\<forall>f \<in> set fs. (\<exists>b. fm old f = Inr b)
                     \<and> (fm old f = Inr True \<longrightarrow> (\<exists>s. sb old new f = Inr s))"
    by auto
  from Cons.prems obtain b where b: "fm old f = Inr b" by auto
  show ?case
  proof (cases b)
    case True
    with Cons.prems b obtain s where s: "sb old new f = Inr s" by auto
    have sv: "sub_value sb old new f = s" by (simp add: sub_value_def s)
    have "convert_fields fm sb old new (f # fs) (map (\<lambda>k. (k, g k)) ks)
        = convert_fields fm sb old new fs (map (\<lambda>k. (k, (g(f := s)) k)) ks)"
      using b True s by (simp add: dict_set_map_keys[OF assms(1) f])
    also have "\<dots> = Inr (map (\<lambda>k. (k, if k \<in> set fs \<and> fm old k = Inr True
                          then sub_value sb old new k else (g(f := s)) k)) ks)"
      by (rule Cons.IH[OF sub tot])
    also have "\<dots> = Inr (map (\<lambda>k. (k, if k \<in> set (f # fs) \<and> fm old k = Inr True
                          then sub_value sb old new k else g k)) ks)"
      using b True sv by auto
    finally show ?thesis .
  next
    case False
    have "convert_fields fm sb old new (f # fs) (map (\<lambda>k. (k, g k)) ks)
        = convert_fields fm sb old new fs (map (\<lambda>k. (k, g k)) ks)"
      using b False by simp
    also have "\<dots> = Inr (map (\<lambda>k. (k, if k \<in> set fs \<and> fm old k = Inr True
                          then sub_value sb old new k else g k)) ks)"
      by (rule Cons.IH[OF sub tot])
    also have "\<dots> = Inr (map (\<lambda>k. (k, if k \<in> set (f # fs) \<and> fm old k = Inr True
                          then sub_value sb old new k else g k)) ks)"
      using b False by auto
    finally show ?thesis .
  qed
qed

lemma convert_fields_all_keys:
  assumes "distinct ks"
    and "\<forall>f \<in> set ks. (\<exists>b. fm old f = Inr b)
                     \<and> (fm old f = Inr True \<longrightarrow> (\<exists>s. sb old new f = Inr s))"
  shows "convert_fields fm sb old new (map fst (map (\<lambda>k. (k, g k)) ks)) (map (\<lambda>k. (k, g k)) ks)
     = Inr (map (\<lambda>k. (k, if fm old k = Inr True then sub_value sb old new k else g k)) ks)"
proof -
  have e: "map fst (map (\<lambda>k. (k, g k)) ks) = ks" by (simp add: comp_def)
  from convert_fields_closed[where ks=ks and fs=ks and g=g and fm=fm and sb=sb
      and old=old and new=new] assms
  show ?thesis unfolding e by (simp cong: map_cong)
qed

lemma convert_rules_closed:
  assumes "distinct ks"
    and "\<forall>rule \<in> set rules. \<forall>f \<in> set ks. (\<exists>b. fm (fst rule) f = Inr b)
            \<and> (fm (fst rule) f = Inr True \<longrightarrow> (\<exists>s. sb (fst rule) (snd rule) f = Inr s))"
  shows "convert_rules fm sb rules (map (\<lambda>k. (k, g k)) ks)
     = Inr (map (\<lambda>k. (k, foldl (apply_rule fm sb k) (g k) rules)) ks)"
  using assms(2)
proof (induction rules arbitrary: g)
  case Nil
  then show ?case by simp
next
  case (Cons rule rules)
  obtain old new where r: "rule = (old, new)" by (cases rule)
  from Cons.prems r have tot1: "\<forall>f \<in> set ks. (\<exists>b. fm old f = Inr b)
                     \<and> (fm old f = Inr True \<longrightarrow> (\<exists>s. sb old new f = Inr s))"
    by auto
  from Cons.prems have tot2: "\<forall>rule \<in> set rules. \<forall>f \<in> set ks. (\<exists>b. fm (fst rule) f = Inr b)
            \<and> (fm (fst rule) f = Inr True \<longrightarrow> (\<exists>s. sb (fst rule) (snd rule) f = Inr s))"
    by auto
  let ?g = "\<lambda>k. if fm old k = Inr True then sub_value sb old new k else g k"
  have "convert_rules fm sb (rule # rules) (map (\<lambda>k. (k, g k)) ks)
      = convert_rules fm sb rules (map (\<lambda>k. (k, ?g k)) ks)"
    unfolding r
    using convert_fields_all_keys[where ks=ks and g=g and fm=fm and sb=sb and old=old
        and new=new] assms(1) tot1
    by simp
  also have "\<dots> = Inr (map (\<lambda>k. (k, foldl (apply_rule fm sb k) (?g k) rules)) ks)"
    by (rule Cons.IH[OF tot2])
  also have "\<dots> = Inr (map (\<lambda>k. (k, foldl (apply_rule fm sb k) (g k) (rule # rules))) ks)"
    by (simp add: apply_rule_def r)
  finally show ?case .
qed

lemma find_append_case:
  "List.find P (xs @ ys) = (case List.find P xs of None \<Rightarrow> List.find P ys | Some x \<Rightarrow> Some x)"
  by (induction xs) simp_all

lemma last_match_Cons:
  "last_match fm (rule # rules) field
     = (case last_match fm rules field of
          None \<Rightarrow> (if fm (fst rule) field = Inr True then Some rule else None)
        | Some r \<Rightarrow> Some r)"
  by (simp add: last_match_def find_append_case split: option.splits)

lemma foldl_apply_rule_last_match:
  "foldl (apply_rule fm sb field) current rules
     = (case last_match fm rules field of
          None \<Rightarrow> current
        | Some rule \<Rightarrow> sub_value sb (fst rule) (snd rule) field)"
proof (induction rules arbitrary: current)
  case Nil
  then show ?case by (simp add: last_match_def)
next
  case (Cons rule rules)
  have "foldl (apply_rule fm sb field) current (rule # rules)
      = (case last_match fm rules field of
           None \<Rightarrow> apply_rule fm sb field current rule
         | Some r \<Rightarrow> sub_value sb (fst r) (snd r) field)"
    by (simp add: Cons.IH)
  also have "\<dots> = (case last_match fm (rule # rules) field of
          None \<Rightarrow> current
        | Some r \<Rightarrow> sub_value sb (fst r) (snd r) field)"
    by (cases "last_match fm rules field") (simp_all add: last_match_Cons apply_rule_def)
  finally show ?case .
qed

lemma display_name_foldl:
  "display_name fm sb rules field = foldl (apply_rule fm sb field) field rules"
  by (simp add: foldl_apply_rule_last_match display_name_def sub_value_def split: option.splits)

lemma dict_set_same:
  "dict_set (map (\<lambda>k. (k, k)) acc) f f
     = map (\<lambda>k. (k, k)) (if f \<notin> set acc then acc @ [f] else acc)"
  by (induction acc) auto

lemma py_dict_zip_same_acc:
  "foldl (\<lambda>d (k, v). dict_set d k v) (map (\<lambda>k. (k, k)) acc) (zip fs fs)
     = map (\<lambda>k. (k, k)) (add_fieldnames fs (acc :: string list))"
proof (induction fs arbitrary: acc)
  case Nil
  then show ?case by simp
next
  case (Cons f fs)
  show ?case
    using Cons.IH[of "if f \<notin> set acc then acc @ [f] else acc"]
    by (simp only: zip_Cons_Cons foldl_Cons prod.case dict_set_same add_fieldnames.simps)
qed

lemma py_dict_zip_same:
  "py_dict (zip fs fs) = map (\<lambda>k. (k, k)) (first_seen (fs :: string list))"
  using py_dict_zip_same_acc[of "[]" fs]
  by (simp add: py_dict_def add_fieldnames_first_seen)

lemma convert_fieldnames_closed:
  assumes "\<forall>rule \<in> set rules. \<forall>f \<in> set fieldnames. (\<exists>b. fm (fst rule) f = Inr b)
            \<and> (fm (fst rule) f = Inr True \<longrightarrow> (\<exists>s. sb (fst rule) (snd rule) f = Inr s))"
  shows "convert_fieldnames fm sb rules fieldnames
     = Inr (map (\<lambda>f. (f, display_name fm sb rules f)) (first_seen fieldnames))"
proof -
  from assms have tot: "\<forall>rule \<in> set rules. \<forall>f \<in> set (first_seen fieldnames). (\<exists>b. fm (fst rule) f = Inr b)
            \<and> (fm (fst rule) f = Inr True \<longrightarrow> (\<exists>s. sb (fst rule) (snd rule) f = Inr s))"
    by (simp add: set_first_seen)
  from convert_rules_closed[OF distinct_first_seen tot, of "\<lambda>k. k"]
  show ?thesis
    by (simp add: convert_fieldnames_def py_dict_zip_same display_name_foldl)
qed

lemma first_some_SomeD: "first_some xs = Some y \<Longrightarrow> Some y \<in> set xs"
  by (induction xs rule: first_some.induct) auto

lemma match_here_full_rest:
  "match_here True ts s = Some (groups, r) \<Longrightarrow> r = []"
proof (induction ts arbitrary: s groups r)
  case Nil
  then show ?case by (simp split: if_splits)
next
  case (Cons t ts)
  show ?case
  proof (cases t)
    case (Lit c)
    with Cons show ?thesis by (auto split: list.splits if_splits)
  next
    case AnyChar
    with Cons show ?thesis by (auto split: list.splits if_splits)
  next
    case Digits
    with Cons.prems have "first_some
       (map (\<lambda>n. map_option (\<lambda>(groups, r). (take n s # groups, r)) (match_here True ts (drop n s)))
            (rev [1..<Suc (length (takeWhile is_digit s))])) = Some (groups, r)"
      by simp
    from first_some_SomeD[OF this] obtain n where
      "Some (groups, r) = map_option (\<lambda>(groups, r). (take n s # groups, r)) (match_here True ts (drop n s))"
      by auto
    then obtain gs where "match_here True ts (drop n s) = Some (gs, r)"
      by (cases "match_here True ts (drop n s)") auto
    from Cons.IH[OF this] show ?thesis .
  qed
qed

text \<open>
  C1 (as amended): the field-name mapping iterates the rules in the outer loop and the
  fieldnames in the inner loop, assigning as it goes; every rule is matched against the field
  name itself (the key of the mapping), never against the value an earlier rule wrote,
  and a rule that matches overwrites the value with the substitution made on the field
  name. So the mapped value of a field is the substitution of the last rule, in rule
  order, whose pattern fully matches the field name, and the field name when no rule
  matches; the keys are the field names in first-seen order. No substitution is layered
  on another.
\<close>

theorem convert_fieldnames_last_match_wins:
  assumes "\<forall>rule \<in> set rules. \<forall>f \<in> set fieldnames. (\<exists>b. fm (fst rule) f = Inr b)
            \<and> (fm (fst rule) f = Inr True \<longrightarrow> (\<exists>s. sb (fst rule) (snd rule) f = Inr s))"
  shows "convert_fieldnames fm sb rules fieldnames
     = Inr (map (\<lambda>f. (f, display_name fm sb rules f)) (first_seen fieldnames))"
  by (rule convert_fieldnames_closed[OF assms])

lemma re_facts:
  "re_fullmatch ''a.c'' ''abc'' = Inr True" "re_fullmatch ''abc'' ''abc'' = Inr True"
  "re_fullmatch ''a.c'' ''x'' = Inr False" "re_fullmatch ''abc'' ''x'' = Inr False"
  "re_sub ''a.c'' ''First'' ''abc'' = Inr ''First''" "re_sub ''abc'' ''Second'' ''abc'' = Inr ''Second''"
  by code_simp+

theorem convert_fieldnames_last_match_wins_witness:
  "convert_fieldnames re_fullmatch re_sub [(''a.c'', ''First''), (''abc'', ''Second'')] [''abc'', ''x'', ''abc'']
     = Inr [(''abc'', ''Second''), (''x'', ''x'')]"
proof -
  have tot: "\<forall>rule \<in> set [(''a.c'', ''First''), (''abc'', ''Second'')]. \<forall>f \<in> set [''abc'', ''x'', ''abc''].
      (\<exists>b. re_fullmatch (fst rule) f = Inr b)
      \<and> (re_fullmatch (fst rule) f = Inr True \<longrightarrow> (\<exists>s. re_sub (fst rule) (snd rule) f = Inr s))"
    by (auto simp: re_facts)
  have d: "display_name re_fullmatch re_sub [(''a.c'', ''First''), (''abc'', ''Second'')] ''abc'' = ''Second''"
    "display_name re_fullmatch re_sub [(''a.c'', ''First''), (''abc'', ''Second'')] ''x'' = ''x''"
    by (simp_all add: display_name_def last_match_def re_facts)
  from convert_fieldnames_last_match_wins[OF tot] d show ?thesis by simp
qed

theorem convert_fieldnames_layered_counterexample:
  "convert_fieldnames re_fullmatch re_sub [(''a'', ''b''), (''b'', ''c'')] [''a''] = Inr [(''a'', ''b'')]
   \<and> layered_fieldnames re_fullmatch re_sub [(''a'', ''b''), (''b'', ''c'')] [''a''] = Inr [(''a'', ''c'')]"
  by code_simp

text \<open>
  C5: the field-name mapping replaces the mapped value of a field only when
  \<^verbatim>\<open>re.fullmatch\<close> of the rule's pattern succeeds on the field name, and the new value is
  \<^verbatim>\<open>re.sub\<close> of the pattern and the rule's template on the field name. A full match
  consumes the whole string: \<open>id\<close> matches neither \<open>id2\<close> nor \<open>xid\<close>. A reference \<^verbatim>\<open>\1\<close> of
  the template is replaced by the captured index: the field list
  \<^verbatim>\<open>["recipientOrganization.0.name"]\<close> and the rule \<^verbatim>\<open>recipientOrganization.([0-9]+).name\<close>,
  \<^verbatim>\<open>recipientOrganization:\1:Org Name\<close> give the mapping of
  \<^verbatim>\<open>recipientOrganization.0.name\<close> to \<^verbatim>\<open>recipientOrganization:0:Org Name\<close>.
\<close>

theorem convert_fieldnames_full_match_only:
  "((\<forall>f \<in> set fieldnames. (\<exists>b. fm old f = Inr b)
        \<and> (fm old f = Inr True \<longrightarrow> (\<exists>s. sb old new f = Inr s)))
     \<longrightarrow> convert_fieldnames fm sb [(old, new)] fieldnames
         = Inr (map (\<lambda>f. (f, if fm old f = Inr True then sub_value sb old new f else f))
                  (first_seen fieldnames)))
   \<and> (re_fullmatch pattern s = Inr True
        \<longrightarrow> (\<exists>ts groups. parse_pattern pattern = Some ts \<and> match_here True ts s = Some (groups, [])))
   \<and> re_fullmatch ''id'' ''id'' = Inr True
   \<and> re_fullmatch ''id'' ''id2'' = Inr False
   \<and> re_fullmatch ''id'' ''xid'' = Inr False
   \<and> convert_fieldnames re_fullmatch re_sub
        [(''recipientOrganization.([0-9]+).name'', ''recipientOrganization:'' @ [CHR 0x5C] @ ''1:Org Name'')]
        [''recipientOrganization.0.name'']
       = Inr [(''recipientOrganization.0.name'', ''recipientOrganization:0:Org Name'')]"
proof -
  have single: "convert_fieldnames fm sb [(old, new)] fieldnames
         = Inr (map (\<lambda>f. (f, if fm old f = Inr True then sub_value sb old new f else f))
                  (first_seen fieldnames))"
    if "\<forall>f \<in> set fieldnames. (\<exists>b. fm old f = Inr b)
        \<and> (fm old f = Inr True \<longrightarrow> (\<exists>s. sb old new f = Inr s))"
  proof -
    from that have "\<forall>rule \<in> set [(old, new)]. \<forall>f \<in> set fieldnames. (\<exists>b. fm (fst rule) f = Inr b)
            \<and> (fm (fst rule) f = Inr True \<longrightarrow> (\<exists>s. sb (fst rule) (snd rule) f = Inr s))"
      by simp
    from convert_fieldnames_closed[OF this] show ?thesis
      by (simp add: display_name_foldl apply_rule_def)
  qed
  have full: "\<exists>ts groups. parse_pattern pattern = Some ts \<and> match_here True ts s = Some (groups, [])"
    if "re_fullmatch pattern s = Inr True"
  proof -
    from that obtain ts where ts: "parse_pattern pattern = Some ts"
      and "match_here True ts s \<noteq> None"
      by (auto simp: re_fullmatch_def split: option.splits)
    then obtain groups r where m: "match_here True ts s = Some (groups, r)" by auto
    from match_here_full_rest[OF m] m ts show ?thesis by simp
  qed
  have ids: "re_fullmatch ''id'' ''id'' = Inr True" "re_fullmatch ''id'' ''id2'' = Inr False"
    "re_fullmatch ''id'' ''xid'' = Inr False"
    by code_simp+
  have ex: "convert_fieldnames re_fullmatch re_sub
        [(''recipientOrganization.([0-9]+).name'', ''recipientOrganization:'' @ [CHR 0x5C] @ ''1:Org Name'')]
        [''recipientOrganization.0.name'']
       = Inr [(''recipientOrganization.0.name'', ''recipientOrganization:0:Org Name'')]"
    by code_simp
  from single full ids ex show ?thesis by blast
qed

theorem convert_fieldnames_full_match_only_witness:
  "re_fullmatch ''recipientOrganization.([0-9]+).name'' ''recipientOrganization.12.name'' = Inr True
   \<and> re_fullmatch ''recipientOrganization.([0-9]+).name'' ''recipientOrganization.12.names'' = Inr False
   \<and> convert_fieldnames re_fullmatch re_sub
        [(''recipientOrganization.([0-9]+).name'', ''recipientOrganization:'' @ [CHR 0x5C] @ ''1:Org Name'')]
        [''recipientOrganization.12.name'', ''recipientOrganization.12.names'']
       = Inr [(''recipientOrganization.12.name'', ''recipientOrganization:12:Org Name''),
              (''recipientOrganization.12.names'', ''recipientOrganization.12.names'')]
   \<and> (\<exists>ts groups. parse_pattern ''recipientOrganization.([0-9]+).name'' = Some ts
         \<and> match_here True ts ''recipientOrganization.12.name'' = Some (groups, []))"
proof -
  let ?old = "''recipientOrganization.([0-9]+).name''"
  let ?new = "''recipientOrganization:'' @ [CHR 0x5C] @ ''1:Org Name''"
  have m: "re_fullmatch ?old ''recipientOrganization.12.name'' = Inr True"
    "re_fullmatch ?old ''recipientOrganization.12.names'' = Inr False"
    by code_simp+
  have s: "re_sub ?old ?new ''recipientOrganization.12.name'' = Inr ''recipientOrganization:12:Org Name''"
    by code_simp
  have tot: "\<forall>f \<in> set [''recipientOrganization.12.name'', ''recipientOrganization.12.names''].
      (\<exists>b. re_fullmatch ?old f = Inr b)
      \<and> (re_fullmatch ?old f = Inr True \<longrightarrow> (\<exists>s. re_sub ?old ?new f = Inr s))"
    using m s by auto
  note inst = convert_fieldnames_full_match_only[of
      "[''recipientOrganization.12.name'', ''recipientOrganization.12.names'']"
      re_fullmatch ?old re_sub ?new ?old "''recipientOrganization.12.name''"]
  from inst tot have c: "convert_fieldnames re_fullmatch re_sub [(?old, ?new)]
        [''recipientOrganization.12.name'', ''recipientOrganization.12.names'']
       = Inr (map (\<lambda>f. (f, if re_fullmatch ?old f = Inr True then sub_value re_sub ?old ?new f else f))
                  (first_seen [''recipientOrganization.12.name'', ''recipientOrganization.12.names'']))"
    by blast
  from inst m have f: "\<exists>ts groups. parse_pattern ?old = Some ts
         \<and> match_here True ts ''recipientOrganization.12.name'' = Some (groups, [])"
    by blast
  have v: "map (\<lambda>f. (f, if re_fullmatch ?old f = Inr True then sub_value re_sub ?old ?new f else f))
                  (first_seen [''recipientOrganization.12.name'', ''recipientOrganization.12.names''])
       = [(''recipientOrganization.12.name'', ''recipientOrganization:12:Org Name''),
              (''recipientOrganization.12.names'', ''recipientOrganization.12.names'')]"
    using m s by (simp add: sub_value_def)
  from c v m f show ?thesis by (simp only: simp_thms)
qed

section \<open>Properties of loading\<close>

lemma then_do_Inr: "then_do r k = Inr y \<longleftrightarrow> (\<exists>v. r = Inr v \<and> k v = Inr y)"
  by (cases r) (simp_all add: then_do_def)

lemma then_do_simps: "then_do (Inr v) k = k v" "then_do (Inl e) k = Inl e"
  by (simp_all add: then_do_def)

lemma fetch_schema_keeps:
  assumes "fetch_schema world self = Inr c"
  shows "data c = data self \<and> errors c = errors self \<and> valid c = valid self
     \<and> (\<exists>s. schema c = Some s \<and> validator_schema c = Some s)"
  using assms unfolding fetch_schema_def then_do_Inr by auto

lemma from_json_success:
  assumes "from_json world f url = Inr obj"
  shows "json_load world f = Inr (data obj) \<and> valid obj \<and> errors obj = []"
proof -
  from assms obtain d c errs where d: "json_load world f = Inr d"
    and c: "fetch_schema world ((init url)\<lparr>data := d\<rparr>) = Inr c"
    and r: "(if errs \<noteq> [] then Inl ValueError
             else Inr (c\<lparr>errors := errs, valid := (length errs = 0)\<rparr>)) = Inr obj"
    unfolding from_json_def then_do_Inr by blast
  from r have e: "errs = []" and o: "obj = c\<lparr>errors := [], valid := True\<rparr>"
    by (auto split: if_splits)
  from fetch_schema_keeps[OF c] have "data c = d" by simp
  with d o show ?thesis by simp
qed

text \<open>
  C2: for a document that was read (\<^verbatim>\<open>json.load\<close> returned \<open>doc\<close>) and a schema that was
  fetched, with the engine reporting the errors \<open>es\<close> for the document, loading raises
  if and only if at least one error remains after the suppression filter; it then raises
  \<^verbatim>\<open>ValueError\<close> and returns no object. Otherwise it returns the object, which holds the
  whole document, is marked valid and has an empty error list; and whenever loading
  returns an object at all, that object is valid, has no errors and holds the document
  that was read.
\<close>

theorem from_json_fails_iff_errors_remain:
  assumes "json_load world f = Inr doc"
    and "fetch_schema world ((init url)\<lparr>data := doc\<rparr>) = Inr c"
    and "validator_schema c = Some s"
    and "iter_errors world s doc = (es, None)"
    and "\<forall>e \<in> set es. subscriptable e"
  shows "(isl (from_json world f url) \<longleftrightarrow> filter (\<lambda>e. \<not> suppressed e) es \<noteq> [])
     \<and> (filter (\<lambda>e. \<not> suppressed e) es \<noteq> [] \<longrightarrow> from_json world f url = Inl ValueError)
     \<and> (filter (\<lambda>e. \<not> suppressed e) es = []
          \<longrightarrow> from_json world f url = Inr (c\<lparr>errors := [], valid := True\<rparr>)
              \<and> data (c\<lparr>errors := [], valid := True\<rparr>) = doc)
     \<and> (\<forall>obj. from_json world f url = Inr obj
          \<longrightarrow> data obj = doc \<and> valid obj \<and> errors obj = [])"
proof -
  from fetch_schema_keeps[OF assms(2)] have dc: "data c = doc" by simp
  have ge: "get_errors_of world c doc = Inr (filter (\<lambda>e. \<not> suppressed e) es)"
    using assms(3,4) get_errors_filter[OF assms(5)] by (simp add: get_errors_of_def)
  have fj: "from_json world f url =
      (if filter (\<lambda>e. \<not> suppressed e) es \<noteq> [] then Inl ValueError
       else Inr (c\<lparr>errors := filter (\<lambda>e. \<not> suppressed e) es,
                  valid := (length (filter (\<lambda>e. \<not> suppressed e) es) = 0)\<rparr>))"
    using assms(1,2) dc ge by (simp add: from_json_def then_do_simps)
  have succ: "\<forall>obj. from_json world f url = Inr obj
          \<longrightarrow> data obj = doc \<and> valid obj \<and> errors obj = []"
    using from_json_success[of world f url] assms(1) by auto
  show ?thesis
  proof (cases "filter (\<lambda>e. \<not> suppressed e) es = []")
    case True
    with fj have "from_json world f url = Inr (c\<lparr>errors := [], valid := True\<rparr>)" by simp
    with True dc succ show ?thesis by simp
  next
    case False
    with fj have "from_json world f url = Inl ValueError" by simp
    with False show ?thesis by simp
  qed
qed

lemma example_world_fetch:
  "fetch_schema (example_world es) ((init None)\<lparr>data := example_doc\<rparr>) = Inr example_loaded"
  by (simp add: fetch_schema_def example_world_def then_do_def init_def example_loaded_def
      example_schema_def example_doc_def root_id_def dict_get_def title_of_def)

theorem from_json_fails_iff_errors_remain_witness:
  "from_json (example_world
       [ValidationError ''oneOf'' (JList [date_time_format, JDict [(''format'', JStr ''date'')]]) ''not a date''])
     ''grants.json'' None
     = Inr (example_loaded\<lparr>errors := [], valid := True\<rparr>)
   \<and> data (example_loaded\<lparr>errors := [], valid := True\<rparr>) = example_doc
   \<and> from_json (example_world
       [ValidationError ''oneOf'' (JList [date_time_format, JDict [(''format'', JStr ''date'')]]) ''not a date'',
        ValidationError ''required'' (JList [JStr ''title'']) ''title is required''])
     ''grants.json'' None
     = Inl ValueError"
proof -
  let ?a = "ValidationError ''oneOf'' (JList [date_time_format, JDict [(''format'', JStr ''date'')]]) ''not a date''"
  let ?b = "ValidationError ''required'' (JList [JStr ''title'']) ''title is required''"
  have load: "json_load (example_world es) ''grants.json'' = Inr example_doc" for es
    by (simp add: example_world_def)
  have v: "validator_schema example_loaded = Some example_schema"
    by (simp add: example_loaded_def)
  have it: "iter_errors (example_world es) example_schema example_doc = (es, None)" for es
    by (simp add: example_world_def)
  have s1: "\<forall>e \<in> set [?a]. subscriptable e" and s2: "\<forall>e \<in> set [?a, ?b]. subscriptable e"
    by (simp_all add: subscriptable_def)
  have f: "suppressed ?a" "\<not> suppressed ?b"
    by (simp_all add: suppressed_def date_time_format_def)
  from from_json_fails_iff_errors_remain[OF load example_world_fetch v it s1]
    from_json_fails_iff_errors_remain[OF load example_world_fetch v it s2] f
  show ?thesis by simp
qed

text \<open>
  C9: \<^verbatim>\<open>from_file\<close> raises no error for a file type outside \<^verbatim>\<open>json\<close>, \<^verbatim>\<open>csv\<close>, \<^verbatim>\<open>xlsx\<close>,
  \<^verbatim>\<open>xls\<close> and \<^verbatim>\<open>excel\<close>: it falls through and returns \<^verbatim>\<open>None\<close>, whatever the file and
  the keyword arguments; for a file type of the list it never returns \<^verbatim>\<open>None\<close>.
\<close>

theorem from_file_unrecognised_filetype:
  "(filetype \<notin> set [''json'', ''csv'', ''xlsx'', ''xls'', ''excel'']
      \<longrightarrow> from_file world f filetype kw = Inr None)
   \<and> (filetype \<in> set [''json'', ''csv'', ''xlsx'', ''xls'', ''excel'']
      \<longrightarrow> from_file world f filetype kw \<noteq> Inr None)"
proof (intro conjI impI)
  assume "filetype \<notin> set [''json'', ''csv'', ''xlsx'', ''xls'', ''excel'']"
  then show "from_file world f filetype kw = Inr None"
    by (simp add: from_file_def)
next
  have ns: "map_sum id Some r \<noteq> Inr None" for r :: "error + threesixty"
    by (cases r) simp_all
  assume "filetype \<in> set [''json'', ''csv'', ''xlsx'', ''xls'', ''excel'']"
  then show "from_file world f filetype kw \<noteq> Inr None"
    using ns by (auto simp: from_file_def split: option.splits)
qed

theorem from_file_unrecognised_filetype_witness:
  "''xml'' \<notin> set [''json'', ''csv'', ''xlsx'', ''xls'', ''excel'']
   \<and> from_file (example_world []) ''grants.xml'' ''xml'' \<lparr>kw_encoding = None, kw_schema_url = None\<rparr>
       = Inr None
   \<and> from_file (example_world []) ''grants.json'' ''json'' \<lparr>kw_encoding = None, kw_schema_url = None\<rparr>
       \<noteq> Inr None"
  using from_file_unrecognised_filetype[of "''xml''" "example_world []" "''grants.xml''"
      "\<lparr>kw_encoding = None, kw_schema_url = None\<rparr>"]
    from_file_unrecognised_filetype[of "''json''" "example_world []" "''grants.json''"
      "\<lparr>kw_encoding = None, kw_schema_url = None\<rparr>"]
  by simp

end
